theory Spec2Isabelle
  imports Complex_Main "HOL-Library.AList"
begin

section \<open>URFT: a reliable file transfer over UDP (urft\_client.py, urft\_server.py)\<close>

text \<open>
  Python's \<open>bytes\<close> are lists of \<^typ>\<open>char\<close> (a \<^typ>\<open>char\<close> is one byte, read
  with \<^const>\<open>of_char\<close>), Python's integers are \<^typ>\<open>int\<close>, and every clock reading
  and every \<open>float\<close> is a \<^typ>\<open>rat\<close>: the float arithmetic of the source is modelled
  as exact arithmetic on the decimal constants it writes. One thing about floats is kept:
  where the source multiplies an integer by a float, the integer is first converted to a
  float, and Python raises \<open>OverflowError\<close> when it is too large for that.
\<close>

type_synonym bytes = "char list"

datatype py_error =
    StructError           \<comment> \<open>\<open>struct.error\<close>\<close>
  | ZeroDivisionError
  | UnicodeDecodeError
  | IndexError
  | KeyError
  | OverflowError

subsection \<open>Wire framing: \<open>struct.pack\<close> and \<open>struct.unpack\<close> with \<open>"!I"\<close> and \<open>"!II"\<close>\<close>

text \<open>\<open>struct.pack("!I", x)\<close>: four bytes, most significant first; \<open>struct.error\<close>
  when \<open>x\<close> is not in \<open>[0, 2^32)\<close>.\<close>

definition pack_I :: "int \<Rightarrow> py_error + bytes" where
  "pack_I x =
     (if 0 \<le> x \<and> x < 2 ^ 32
      then Inr [char_of (x div 2 ^ 24), char_of (x div 2 ^ 16), char_of (x div 2 ^ 8), char_of x]
      else Inl StructError)"

definition pack_II :: "int \<Rightarrow> int \<Rightarrow> py_error + bytes" where
  "pack_II x y =
     (case pack_I x of
        Inl e \<Rightarrow> Inl e
      | Inr bx \<Rightarrow> (case pack_I y of Inl e \<Rightarrow> Inl e | Inr by \<Rightarrow> Inr (bx @ by)))"

text \<open>The value of a big-endian byte string.\<close>

definition be_int :: "bytes \<Rightarrow> int" where
  "be_int bs = foldl (\<lambda>acc b. acc * 256 + of_char b) 0 bs"

text \<open>\<open>struct.unpack("!I", b)[0]\<close>: \<open>struct.error\<close> unless \<open>b\<close> has exactly four bytes.\<close>

definition unpack_I :: "bytes \<Rightarrow> py_error + int" where
  "unpack_I b = (if length b = 4 then Inr (be_int b) else Inl StructError)"

text \<open>\<open>struct.unpack("!II", b)\<close>: \<open>struct.error\<close> unless \<open>b\<close> has exactly eight bytes.\<close>

definition unpack_II :: "bytes \<Rightarrow> py_error + int \<times> int" where
  "unpack_II b =
     (if length b = 8 then Inr (be_int (take 4 b), be_int (drop 4 b)) else Inl StructError)"

text \<open>The sender's data packet (urft\_client.py, line 162):
  \<open>struct.pack("!II", next_seq_num, total_packets) + chunk\<close>.\<close>

definition encode_data :: "int \<Rightarrow> int \<Rightarrow> bytes \<Rightarrow> py_error + bytes" where
  "encode_data seq_num total_packets chunk =
     (case pack_II seq_num total_packets of Inl e \<Rightarrow> Inl e | Inr hdr \<Rightarrow> Inr (hdr @ chunk))"

text \<open>The receiver's decoding (urft\_server.py, lines 99--106): a datagram shorter than
  the eight-byte header is malformed; otherwise the header is unpacked from
  \<open>data[:header_size]\<close> and the rest is the payload.\<close>

datatype decoded = Malformed | Decoded int int bytes

definition header_size :: nat where
  "header_size = 8"

definition decode_data :: "bytes \<Rightarrow> py_error + decoded" where
  "decode_data data =
     (if length data < header_size then Inr Malformed
      else case unpack_II (take header_size data) of
             Inl e \<Rightarrow> Inl e
           | Inr (seq_num, packet_total) \<Rightarrow>
               Inr (Decoded seq_num packet_total (drop header_size data)))"

subsection \<open>The receiver's streaming loop (urft\_server.py, \<open>receive_file\<close>, lines 67--229)\<close>

text \<open>
  The loop is modelled as a step function on the receiver's variables. What the socket
  delivers is the input: a datagram, a \<open>socket.timeout\<close>, a \<open>socket.error\<close> (with its
  \<open>winerror\<close>, if it has one) or any other exception, each raised by \<open>recvfrom\<close>. The
  clock readings the step takes are part of the event. What the step does to the outside
  is a list of actions: datagrams sent to the client and the pauses between them.
  Printing is left out. The dictionary \<open>received_packets\<close> is an association list with
  distinct keys; the output file \<open>f\<close> is the list \<open>written\<close> of the \<open>f.write\<close> calls in
  order, each kept with the sequence number it was made for, so that the file's content
  is \<open>concat (map snd written)\<close>.
\<close>

definition MAX_REASONABLE_PACKETS :: int where
  "MAX_REASONABLE_PACKETS = 100000"

definition SERVER_TIMEOUT :: rat where
  "SERVER_TIMEOUT = 120"

text \<open>\<open>expected_packets = (file_size + 1023) // 1024\<close> (line 68).\<close>

definition expected_packets :: "int \<Rightarrow> int" where
  "expected_packets file_size = (file_size + 1023) div 1024"

text \<open>\<open>n * x\<close> for an integer \<open>n\<close> and a float \<open>x\<close>: \<open>n\<close> is converted to a float,
  rounding to the nearest one. The largest float is \<open>2^1024 - 2^971\<close>, so the conversion
  raises \<open>OverflowError\<close> from \<open>2^1024 - 2^970\<close> on, in either direction; below that
  the product is taken exact.\<close>

definition float_overflows :: "int \<Rightarrow> bool" where
  "float_overflows n \<longleftrightarrow> \<bar>n\<bar> \<ge> 2 ^ 1024 - 2 ^ 970"

definition int_times_float :: "int \<Rightarrow> rat \<Rightarrow> py_error + rat" where
  "int_times_float n x = (if float_overflows n then Inl OverflowError else Inr (of_int n * x))"

datatype action = SendTo bytes | Sleep rat

datatype rx_event =
    Datagram bytes rat        \<comment> \<open>\<open>recvfrom\<close> returned the datagram; \<open>time.time()\<close> after it\<close>
  | SocketTimeout rat         \<comment> \<open>\<open>socket.timeout\<close>; \<open>time.time()\<close> in the handler\<close>
  | SocketError "int option"  \<comment> \<open>\<open>socket.error\<close> with its \<open>winerror\<close>\<close>
  | OtherException

record rx_state =
  high_rtt_mode :: bool
  received_seq_nums :: "int set"
  received_packets :: "(int \<times> bytes) list"
  expected_seq :: int
  total_packets :: int
  transfer_complete :: bool
  last_activity_time :: rat
  written :: "(int \<times> bytes) list"

text \<open>The state before the loop (lines 75--83); \<open>high_rtt_mode\<close> comes from the header
  phase, which sets it when a probe arrived.\<close>

definition rx_init :: "bool \<Rightarrow> rat \<Rightarrow> rx_state" where
  "rx_init h t0 =
     \<lparr>high_rtt_mode = h, received_seq_nums = {}, received_packets = [], expected_seq = 0,
      total_packets = 0, transfer_complete = False, last_activity_time = t0, written = []\<rparr>"

text \<open>Lines 109--116: an unreasonable \<open>packet_total\<close> is replaced by the expectation when
  that is positive; otherwise the packet is ignored (\<open>None\<close>).\<close>

definition sanitize_total :: "int \<Rightarrow> int \<Rightarrow> int option" where
  "sanitize_total file_size packet_total =
     (if packet_total > MAX_REASONABLE_PACKETS \<or> packet_total = 0
      then (if expected_packets file_size > 0 then Some (expected_packets file_size) else None)
      else Some packet_total)"

text \<open>Lines 119--129: \<open>total_packets\<close> is set when it is still 0, and the expectation is
  preferred when the packet's count is far from it. The result is the value of
  \<open>total_packets\<close> after line 129, or the \<open>OverflowError\<close> that the product of line 124
  raises; by then line 120 has assigned \<open>packet_total\<close>.\<close>

definition bind_total :: "int \<Rightarrow> int \<Rightarrow> int \<Rightarrow> py_error + int" where
  "bind_total file_size packet_total total_now =
     (if total_now = 0
      then (case int_times_float (expected_packets file_size) (1 / 2) of
              Inl e \<Rightarrow> Inl e
            | Inr half \<Rightarrow>
                Inr (if \<bar>of_int (packet_total - expected_packets file_size)\<bar> > half
                        \<and> expected_packets file_size > 0
                        \<and> expected_packets file_size < MAX_REASONABLE_PACKETS
                     then expected_packets file_size
                     else packet_total))
      else Inr total_now)"

text \<open>Lines 164--168: the buffered packets that are now in order are written.\<close>

function drain :: "rx_state \<Rightarrow> rx_state" where
  "drain s =
     (case map_of (received_packets s) (expected_seq s) of
        None \<Rightarrow> s
      | Some chunk \<Rightarrow>
          drain (s\<lparr>written := written s @ [(expected_seq s, chunk)],
                   received_seq_nums := insert (expected_seq s) (received_seq_nums s),
                   received_packets := AList.delete (expected_seq s) (received_packets s),
                   expected_seq := expected_seq s + 1\<rparr>))"
  by pat_completeness auto

termination drain
  by (relation "measure (\<lambda>s. length (received_packets s))")
     (auto simp: AList.delete_eq intro!: length_filter_less dest!: map_of_SomeD)

declare drain.simps [simp del]

text \<open>The acknowledgement of line 154 and line 184. A \<open>struct.error\<close> raised by
  \<open>struct.pack\<close> is caught at line 186, and nothing is sent.\<close>

definition send_ack :: "int \<Rightarrow> action list" where
  "send_ack seq_num = (case pack_I seq_num of Inl e \<Rightarrow> [] | Inr a \<Rightarrow> [SendTo a])"

text \<open>Lines 131--184: the packet is the termination marker, out of range, a duplicate,
  the expected one, or one to buffer; every data packet that gets that far is
  acknowledged.\<close>

definition rx_dispatch :: "int \<Rightarrow> int \<Rightarrow> bytes \<Rightarrow> rx_state \<Rightarrow> rx_state \<times> action list" where
  "rx_dispatch seq_num packet_total data_chunk s =
     (if seq_num = total_packets s \<and> packet_total = total_packets s then
        (let repeat_count = (if high_rtt_mode s then 15 else 5 :: nat);
             delay_time = (if high_rtt_mode s then 5 / 100 else 1 / 100 :: rat)
         in case pack_I (total_packets s) of
              Inl e \<Rightarrow> (s, [])
            | Inr a \<Rightarrow> (s\<lparr>transfer_complete := True\<rparr>,
                        concat (replicate repeat_count [SendTo a, Sleep delay_time])))
      else if seq_num \<ge> total_packets s then (s, [])
      else if seq_num \<in> received_seq_nums s then (s, send_ack seq_num)
      else if seq_num = expected_seq s then
        (drain (s\<lparr>written := written s @ [(seq_num, data_chunk)],
                   received_seq_nums := insert seq_num (received_seq_nums s),
                   expected_seq := expected_seq s + 1\<rparr>),
         send_ack seq_num)
      else if seq_num > expected_seq s then
        (s\<lparr>received_packets := AList.update seq_num data_chunk (received_packets s),
           received_seq_nums := insert seq_num (received_seq_nums s)\<rparr>,
         send_ack seq_num)
      else (s, send_ack seq_num))"

text \<open>Lines 119--184: a decoded packet whose total has passed the sanity check. The
  \<open>OverflowError\<close> of line 124 is not a \<open>struct.error\<close>: it passes line 186 and is
  caught at line 227, which goes on with the next datagram. The packet is then neither
  dispatched nor acknowledged, and \<open>total_packets\<close> keeps what line 120 assigned.\<close>

definition rx_packet :: "int \<Rightarrow> int \<Rightarrow> int \<Rightarrow> bytes \<Rightarrow> rx_state \<Rightarrow> rx_state \<times> action list" where
  "rx_packet file_size seq_num packet_total data_chunk s =
     (case bind_total file_size packet_total (total_packets s) of
        Inl e \<Rightarrow> (s\<lparr>total_packets := packet_total\<rparr>, [])
      | Inr bound \<Rightarrow>
          rx_dispatch seq_num packet_total data_chunk (s\<lparr>total_packets := bound\<rparr>))"

text \<open>Lines 92--188: one received datagram.\<close>

definition rx_datagram :: "int \<Rightarrow> bytes \<Rightarrow> rx_state \<Rightarrow> rx_state \<times> action list" where
  "rx_datagram file_size data s =
     (if data = ''RTT_PROBE'' then (s\<lparr>high_rtt_mode := True\<rparr>, [SendTo ''RTT_ACK''])
      else case decode_data data of
             Inl e \<Rightarrow> (s, [])
           | Inr Malformed \<Rightarrow> (s, [])
           | Inr (Decoded seq_num packet_total data_chunk) \<Rightarrow>
               (case sanitize_total file_size packet_total of
                  None \<Rightarrow> (s, [])
                | Some packet_total' \<Rightarrow> rx_packet file_size seq_num packet_total' data_chunk s))"

text \<open>One iteration of \<open>while not transfer_complete\<close> (lines 87--229). \<open>None\<close> is the
  end of \<open>receive_file\<close> from inside the loop: \<open>return False\<close> (lines 203 and 208), or an
  exception that no handler catches. The one such exception is the \<open>OverflowError\<close> of the
  product of line 217: it is raised inside the handler of line 212, where the handler of
  line 227 does not apply. The product is only evaluated when \<open>total_packets > 0\<close>.\<close>

fun rx_step :: "int \<Rightarrow> rx_event \<Rightarrow> rx_state \<Rightarrow> (rx_state \<times> action list) option" where
  "rx_step file_size (Datagram data t) s =
     Some (rx_datagram file_size data (s\<lparr>last_activity_time := t\<rparr>))"
| "rx_step file_size (SocketTimeout current_time) s =
     (let inactive_time = current_time - last_activity_time s in
      if high_rtt_mode s
      then (if inactive_time > SERVER_TIMEOUT * 2 then None else Some (s, []))
      else (if inactive_time > SERVER_TIMEOUT then None else Some (s, [])))"
| "rx_step file_size (SocketError winerror) s =
     (if winerror = Some 10054
      then (if total_packets s > 0
            then (case int_times_float (total_packets s) (9 / 10) of
                    Inl e \<Rightarrow> None
                  | Inr most \<Rightarrow>
                      if of_int (expected_seq s) > most
                      then Some (s\<lparr>transfer_complete := True\<rparr>, [])
                      else Some (s, []))
            else Some (s, []))
      else Some (s, []))"
| "rx_step file_size OtherException s = Some (s, [])"

text \<open>The loop over the events the socket delivers: it stops when \<open>transfer_complete\<close> is
  set, and returns the state reached and everything sent.\<close>

fun rx_run :: "int \<Rightarrow> rx_event list \<Rightarrow> rx_state \<Rightarrow> (rx_state \<times> action list) option" where
  "rx_run file_size [] s = Some (s, [])"
| "rx_run file_size (e # es) s =
     (if transfer_complete s then Some (s, [])
      else case rx_step file_size e s of
             None \<Rightarrow> None
           | Some (s', a) \<Rightarrow>
               (case rx_run file_size es s' of
                  None \<Rightarrow> None
                | Some (s'', a') \<Rightarrow> Some (s'', a @ a')))"

text \<open>Lines 234--267 without the digest: the size check that decides the result when the
  header carried no digest.\<close>

definition size_verified :: "int \<Rightarrow> rx_state \<Rightarrow> bool" where
  "size_verified file_size s \<longleftrightarrow> int (length (concat (map snd (written s)))) = file_size"

subsection \<open>Invariants of the receiver's loop\<close>

text \<open>What holds of the receiver's variables at every point of the loop: the writes made
  are those for the sequence numbers below \<open>expected_seq\<close>, in order; the buffered packets
  lie above \<open>expected_seq\<close> and below \<open>total_packets\<close>; and \<open>received_seq_nums\<close> holds the
  written and the buffered sequence numbers. Inside the loop of lines 164--168 the packet
  at \<open>expected_seq\<close> itself may still be buffered (\<open>rx_inv_weak\<close>).\<close>

definition rx_inv_weak :: "rx_state \<Rightarrow> bool" where
  "rx_inv_weak s \<longleftrightarrow>
     0 \<le> expected_seq s \<and> expected_seq s \<le> total_packets s
     \<and> map fst (written s) = [0..expected_seq s - 1]
     \<and> distinct (map fst (received_packets s))
     \<and> (\<forall>k \<in> fst ` set (received_packets s). expected_seq s \<le> k \<and> k < total_packets s)
     \<and> received_seq_nums s = {0..<expected_seq s} \<union> fst ` set (received_packets s)"

definition rx_inv :: "rx_state \<Rightarrow> bool" where
  "rx_inv s \<longleftrightarrow> rx_inv_weak s \<and> expected_seq s \<notin> fst ` set (received_packets s)"

text \<open>The loop only ever adds to the file and moves \<open>expected_seq\<close> up.\<close>

definition rx_grows :: "rx_state \<Rightarrow> rx_state \<Rightarrow> bool" where
  "rx_grows s s' \<longleftrightarrow> expected_seq s \<le> expected_seq s' \<and> (\<exists>r. written s' = written s @ r)"

text \<open>The pairs of sequence number and payload carried by the datagrams of a list of
  events.\<close>

fun decoded_of :: "rx_event \<Rightarrow> (int \<times> bytes) list" where
  "decoded_of (Datagram data t) =
     (case decode_data data of Inr (Decoded q tot p) \<Rightarrow> [(q, p)] | _ \<Rightarrow> [])"
| "decoded_of _ = []"

definition carried :: "rx_event list \<Rightarrow> (int \<times> bytes) set" where
  "carried es = set (concat (map decoded_of es))"

definition rx_prov :: "(int \<times> bytes) set \<Rightarrow> rx_state \<Rightarrow> bool" where
  "rx_prov C s \<longleftrightarrow> set (written s) \<subseteq> C \<and> set (received_packets s) \<subseteq> C"

subsection \<open>The sender (urft\_client.py, \<open>send_file\<close>)\<close>

text \<open>
  The sender's loops are modelled the same way: what \<open>recvfrom\<close> returns or raises is the
  input, together with the clock readings of the iteration, and the datagrams sent are
  the output. The dictionary \<open>window\<close> is an association list in insertion order, which is
  the order \<open>list(window.keys())\<close> walks through.
\<close>

definition CHUNK_SIZE :: nat where
  "CHUNK_SIZE = 1024"

definition TIMEOUT :: rat where
  "TIMEOUT = 0.2"

definition WINDOW_SIZE :: int where
  "WINDOW_SIZE = 32"

definition MAX_RETRIES :: int where
  "MAX_RETRIES = 25"

definition MAX_TRANSFER_TIME :: rat where
  "MAX_TRANSFER_TIME = 120"

text \<open>Lines 109--114: the file is read in chunks of \<open>CHUNK_SIZE\<close> bytes until a read
  returns nothing.\<close>

function read_chunks :: "bytes \<Rightarrow> bytes list" where
  "read_chunks file =
     (if take CHUNK_SIZE file = [] then []
      else take CHUNK_SIZE file # read_chunks (drop CHUNK_SIZE file))"
  by pat_completeness auto

termination read_chunks
  by (relation "measure length") (auto simp: CHUNK_SIZE_def)

declare read_chunks.simps [simp del]

text \<open>What is fixed when streaming starts: the chunks, the start of the transfer and the
  round-trip time measured by the probes (0 when no probe was answered).\<close>

record tx_session =
  chunks :: "bytes list"
  start_time :: rat
  initial_rtt :: rat

definition tx_total :: "tx_session \<Rightarrow> int" where
  "tx_total c = int (length (chunks c))"

text \<open>Lines 87--100.\<close>

definition tx_high_rtt_mode :: "tx_session \<Rightarrow> bool" where
  "tx_high_rtt_mode c \<longleftrightarrow> initial_rtt c > 0.1"

definition extreme_rtt_mode :: "tx_session \<Rightarrow> bool" where
  "extreme_rtt_mode c \<longleftrightarrow> initial_rtt c > 0.2"

definition effective_timeout :: "tx_session \<Rightarrow> rat" where
  "effective_timeout c =
     (if extreme_rtt_mode c then max 1.0 (initial_rtt c * 3)
      else if tx_high_rtt_mode c then max 0.5 (initial_rtt c * 2)
      else TIMEOUT)"

definition effective_window :: "tx_session \<Rightarrow> int" where
  "effective_window c =
     (if extreme_rtt_mode c then min 192 (WINDOW_SIZE * 6)
      else if tx_high_rtt_mode c then min 128 (WINDOW_SIZE * 4)
      else WINDOW_SIZE)"

text \<open>A window entry is \<open>(packet_data, sent_time, retries)\<close>.\<close>

type_synonym tx_entry = "bytes \<times> rat \<times> nat"

record tx_state =
  window :: "(int \<times> tx_entry) list"
  next_seq_num :: int
  base_seq_num :: int

definition tx_init :: tx_state where
  "tx_init = \<lparr>window = [], next_seq_num = 0, base_seq_num = 0\<rparr>"

text \<open>\<open>chunks[i]\<close>: a negative index counts from the end, and an index out of range
  raises \<open>IndexError\<close>.\<close>

definition py_index :: "'a list \<Rightarrow> int \<Rightarrow> py_error + 'a" where
  "py_index xs i =
     (if 0 \<le> i \<and> i < int (length xs) then Inr (xs ! nat i)
      else if - int (length xs) \<le> i \<and> i < 0 then Inr (xs ! nat (int (length xs) + i))
      else Inl IndexError)"

text \<open>Lines 128--156: the burst cap, from the share of the time that remains and the
  share of the packets acknowledged.\<close>

definition remaining_time_percent :: "tx_session \<Rightarrow> rat \<Rightarrow> rat" where
  "remaining_time_percent c current_time =
     (MAX_TRANSFER_TIME - (current_time - start_time c)) / MAX_TRANSFER_TIME * 100"

definition max_burst :: "bool \<Rightarrow> bool \<Rightarrow> rat \<Rightarrow> rat \<Rightarrow> int" where
  "max_burst high extreme remaining actual_progress_percent =
     (let expected_progress_percent = 100 - remaining;
          progress_deficit = expected_progress_percent - actual_progress_percent;
          b0 = (if high then 12 else 8);
          b1 = (if progress_deficit > 5 \<or> remaining < 70 then (if high then 24 else 16) else b0);
          b2 = (if progress_deficit > 10 \<or> remaining < 50 then (if high then 48 else 32) else b1);
          b3 = (if progress_deficit > 15 \<or> remaining < 30 then (if high then 96 else 64) else b2);
          b4 = (if remaining < 20 \<and> actual_progress_percent > 75
                then (if high then 192 else 128) else b3)
      in if extreme then (if remaining < 50 then b4 * 2 * 2 else b4 * 2) else b4)"

text \<open>Lines 160--166: new packets are sent while the window has room, chunks remain and
  the burst cap is not reached. An exception here is not caught.\<close>

function send_burst ::
  "tx_session \<Rightarrow> rat \<Rightarrow> int \<Rightarrow> int \<Rightarrow> tx_state \<Rightarrow> py_error + tx_state \<times> action list" where
  "send_burst c now burst send_count st =
     (if int (length (window st)) < effective_window c \<and> next_seq_num st < tx_total c
         \<and> send_count < burst
      then case py_index (chunks c) (next_seq_num st) of
             Inl e \<Rightarrow> Inl e
           | Inr chunk \<Rightarrow>
               (case encode_data (next_seq_num st) (tx_total c) chunk of
                  Inl e \<Rightarrow> Inl e
                | Inr packet \<Rightarrow>
                    (case send_burst c now burst (send_count + 1)
                            (st\<lparr>window := AList.update (next_seq_num st) (packet, now, 0) (window st),
                                next_seq_num := next_seq_num st + 1\<rparr>) of
                       Inl e \<Rightarrow> Inl e
                     | Inr (st', acts) \<Rightarrow> Inr (st', SendTo packet # acts)))
      else Inr (st, []))"
  by pat_completeness auto

termination send_burst
  by (relation "measure (\<lambda>(c, now, burst, send_count, st). nat (tx_total c - next_seq_num st))")
     auto

declare send_burst.simps [simp del]

text \<open>Lines 179--180: \<open>base_seq_num\<close> moves up to the first sequence number that is still
  in the window, or to the total.\<close>

function advance_base :: "int \<Rightarrow> (int \<times> tx_entry) list \<Rightarrow> int \<Rightarrow> int" where
  "advance_base total_pk w base =
     (if base < total_pk \<and> map_of w base = None then advance_base total_pk w (base + 1)
      else base)"
  by pat_completeness auto

termination advance_base
  by (relation "measure (\<lambda>(total_pk, w, base). nat (total_pk - base))") auto

declare advance_base.simps [simp del]

text \<open>Lines 186--192: up to \<open>n\<close> more packets after an acknowledgement. The result is the
  state reached, what was sent, and the exception that stopped the loop, if any.\<close>

fun send_extra ::
  "tx_session \<Rightarrow> rat \<Rightarrow> nat \<Rightarrow> tx_state \<Rightarrow> tx_state \<times> action list \<times> py_error option" where
  "send_extra c now 0 st = (st, [], None)"
| "send_extra c now (Suc n) st =
     (if next_seq_num st < tx_total c
      then case py_index (chunks c) (next_seq_num st) of
             Inl e \<Rightarrow> (st, [], Some e)
           | Inr chunk \<Rightarrow>
               (case encode_data (next_seq_num st) (tx_total c) chunk of
                  Inl e \<Rightarrow> (st, [], Some e)
                | Inr packet \<Rightarrow>
                    (case send_extra c now n
                            (st\<lparr>window := AList.update (next_seq_num st) (packet, now, 0) (window st),
                                next_seq_num := next_seq_num st + 1\<rparr>) of
                       (st', acts, err) \<Rightarrow> (st', SendTo packet # acts, err)))
      else send_extra c now n st)"

text \<open>What one iteration of a loop of the sender comes to: the loop goes on, the function
  returns \<open>False\<close>, or an exception leaves \<open>send_file\<close>.\<close>

datatype tx_outcome = Next tx_state "action list" | ReturnFalse | Raised py_error

text \<open>Lines 176--180: the acknowledged packet leaves the window and \<open>base_seq_num\<close>
  moves up.\<close>

definition ack_window :: "tx_session \<Rightarrow> int \<Rightarrow> tx_state \<Rightarrow> tx_state" where
  "ack_window c ack_num st =
     (let st1 = st\<lparr>window := AList.delete ack_num (window st)\<rparr>
      in st1\<lparr>base_seq_num := advance_base (tx_total c) (window st1) (base_seq_num st1)\<rparr>)"

text \<open>Lines 183--192: when little time remains and the window is less than half full, up
  to three more packets are sent.\<close>

definition extra_sends ::
  "tx_session \<Rightarrow> rat \<Rightarrow> rat \<Rightarrow> tx_state \<Rightarrow> tx_state \<times> action list \<times> py_error option" where
  "extra_sends c remaining now st =
     (let current_window_size = effective_window c
      in if remaining < 40 \<and> int (length (window st)) < current_window_size div 2
         then send_extra c now (nat (min 3 (current_window_size - int (length (window st))))) st
         else (st, [], None))"

text \<open>Lines 170--199: a datagram was received. A \<open>struct.error\<close> (from \<open>struct.unpack\<close>, or
  from \<open>struct.pack\<close> in the extra sends) is caught and the loop goes on; the progress
  report of line 195 divides by \<open>total_packets // 20\<close> (\<open>// 40\<close> in high-RTT mode).\<close>

definition recv_ack :: "tx_session \<Rightarrow> rat \<Rightarrow> rat \<Rightarrow> bytes \<Rightarrow> tx_state \<Rightarrow> tx_outcome" where
  "recv_ack c remaining now ack st =
     (case unpack_I ack of
        Inl e \<Rightarrow> Next st []
      | Inr ack_num \<Rightarrow>
          if map_of (window st) ack_num \<noteq> None then
            (case extra_sends c remaining now (ack_window c ack_num st) of
               (st3, acts, err) \<Rightarrow>
                 (case err of
                    Some StructError \<Rightarrow> Next st3 acts
                  | Some e \<Rightarrow> Raised e
                  | None \<Rightarrow>
                      if tx_total c div (if tx_high_rtt_mode c then 40 else 20) = 0
                      then Raised ZeroDivisionError
                      else Next st3 acts))
          else Next st [])"

text \<open>Lines 207--244: the retransmission timeout of a packet that was sent \<open>retries\<close> times
  again, given the share of the time that remains (in the handler) and the share of the
  packets acknowledged (at the start of the iteration).\<close>

definition dynamic_timeout :: "bool \<Rightarrow> bool \<Rightarrow> rat \<Rightarrow> nat \<Rightarrow> rat \<Rightarrow> rat \<Rightarrow> rat" where
  "dynamic_timeout extreme high eff_timeout retries remaining actual_progress_percent =
     (let d0 =
            (if extreme then
               (if retries = 0 then eff_timeout
                else if retries \<le> 3 then eff_timeout * 1.1 ^ retries
                else eff_timeout * 1.2 ^ (min (retries - 3) 3))
             else if high then
               (if retries = 0 then eff_timeout
                else if retries \<le> 3 then eff_timeout * 1.2 ^ retries
                else eff_timeout * 1.5 ^ (min (retries - 3) 3))
             else
               (if retries \<le> 1 then TIMEOUT * 0.8
                else if retries \<le> 3 then TIMEOUT
                else TIMEOUT * 1.05 ^ (retries - 3)));
          d1 =
            (if remaining < 50 then max (TIMEOUT * 0.2) (d0 * 0.4)
             else if remaining < 25 then TIMEOUT * 0.15
             else d0)
      in if remaining < 20 \<and> actual_progress_percent > 75 then TIMEOUT * 0.1 else d1)"

text \<open>Lines 204--257: after a \<open>socket.timeout\<close>, every packet of the window whose timeout
  has passed is sent again, unless it was already sent again \<open>MAX_RETRIES\<close> times.\<close>

fun retransmit ::
  "tx_session \<Rightarrow> rat \<Rightarrow> rat \<Rightarrow> int list \<Rightarrow> tx_state \<Rightarrow> tx_outcome" where
  "retransmit c current_time actual_progress_percent [] st = Next st []"
| "retransmit c current_time actual_progress_percent (seq_num # keys) st =
     (case map_of (window st) seq_num of
        None \<Rightarrow> Raised KeyError
      | Some (packet, sent_time, retries) \<Rightarrow>
          if current_time - sent_time >
               dynamic_timeout (extreme_rtt_mode c) (tx_high_rtt_mode c) (effective_timeout c)
                 retries (remaining_time_percent c current_time) actual_progress_percent
          then if int retries \<ge> MAX_RETRIES then ReturnFalse
               else (case retransmit c current_time actual_progress_percent keys
                            (st\<lparr>window := AList.update seq_num (packet, current_time, retries + 1)
                                             (window st)\<rparr>) of
                       Next st' acts \<Rightarrow> Next st' (SendTo packet # acts)
                     | r \<Rightarrow> r)
          else retransmit c current_time actual_progress_percent keys st)"

text \<open>What \<open>recvfrom\<close> does in an iteration of the streaming loop, with the clock reading
  that follows it.\<close>

datatype tx_event =
    Recv bytes rat          \<comment> \<open>a datagram; \<open>time.time()\<close> for the extra sends\<close>
  | RecvTimeout rat         \<comment> \<open>\<open>socket.timeout\<close>; \<open>time.time()\<close> of line 203\<close>

text \<open>Line 130: the share of the packets acknowledged, in percent.\<close>

definition actual_progress_percent :: "tx_session \<Rightarrow> tx_state \<Rightarrow> rat" where
  "actual_progress_percent c st = of_int (base_seq_num st) / of_int (tx_total c) * 100"

text \<open>Lines 168--257: what follows the burst, a received datagram or a timeout.\<close>

definition tx_handle :: "tx_session \<Rightarrow> rat \<Rightarrow> rat \<Rightarrow> tx_event \<Rightarrow> tx_state \<Rightarrow> tx_outcome" where
  "tx_handle c remaining progress ev st =
     (case ev of
        Recv ack now \<Rightarrow> recv_ack c remaining now ack st
      | RecvTimeout now \<Rightarrow> retransmit c now progress (map fst (window st)) st)"

text \<open>One iteration of \<open>while base_seq_num < total_packets\<close> (lines 120--257), with the
  clock reading of line 121 and the one taken for the packets of the burst. The share of
  acknowledged packets divides by \<open>total_packets\<close>.\<close>

definition tx_iteration :: "tx_session \<Rightarrow> rat \<Rightarrow> rat \<Rightarrow> tx_event \<Rightarrow> tx_state \<Rightarrow> tx_outcome" where
  "tx_iteration c current_time send_time ev st =
     (if current_time - start_time c > MAX_TRANSFER_TIME then ReturnFalse
      else if tx_total c = 0 then Raised ZeroDivisionError
      else
        case send_burst c send_time
               (max_burst (tx_high_rtt_mode c) (extreme_rtt_mode c)
                  (remaining_time_percent c current_time) (actual_progress_percent c st)) 0 st of
          Inl e \<Rightarrow> Raised e
        | Inr (st1, acts1) \<Rightarrow>
            (case tx_handle c (remaining_time_percent c current_time)
                    (actual_progress_percent c st) ev st1 of
               Next st2 acts2 \<Rightarrow> Next st2 (acts1 @ acts2)
             | r \<Rightarrow> r))"

text \<open>The streaming loop over what the socket delivers.\<close>

fun tx_stream :: "tx_session \<Rightarrow> (rat \<times> rat \<times> tx_event) list \<Rightarrow> tx_state \<Rightarrow> tx_outcome" where
  "tx_stream c [] st = Next st []"
| "tx_stream c ((current_time, send_time, ev) # evs) st =
     (if base_seq_num st < tx_total c
      then case tx_iteration c current_time send_time ev st of
             Next st' acts \<Rightarrow>
               (case tx_stream c evs st' of
                  Next st'' acts' \<Rightarrow> Next st'' (acts @ acts')
                | r \<Rightarrow> r)
           | r \<Rightarrow> r
      else Next st [])"

text \<open>Line 260: the termination packet.\<close>

definition term_packet :: "tx_session \<Rightarrow> py_error + bytes" where
  "term_packet c = pack_II (tx_total c) (tx_total c)"

subsection \<open>Invariant of the sender's streaming loop\<close>

text \<open>What holds of the sender's variables at the start of every iteration: \<open>base\<close> and
  \<open>next\<close> are ordered and bounded by the total, the window holds sequence numbers from
  \<open>base\<close> up to \<open>next\<close> only, and \<open>base\<close> is in the window unless everything sent so far
  has been acknowledged.\<close>

definition tx_inv :: "tx_session \<Rightarrow> tx_state \<Rightarrow> bool" where
  "tx_inv c st \<longleftrightarrow>
     0 \<le> base_seq_num st \<and> base_seq_num st \<le> next_seq_num st
     \<and> next_seq_num st \<le> tx_total c
     \<and> distinct (map fst (window st))
     \<and> (\<forall>k \<in> fst ` set (window st). base_seq_num st \<le> k \<and> k < next_seq_num st)
     \<and> (base_seq_num st \<in> fst ` set (window st) \<or> base_seq_num st = next_seq_num st)"

text \<open>The packet \<open>k\<close> has been sent and is no longer in the window: it has been
  acknowledged.\<close>

definition tx_acked :: "int \<Rightarrow> tx_state \<Rightarrow> bool" where
  "tx_acked k st \<longleftrightarrow> k < next_seq_num st \<and> map_of (window st) k = None"

subsection \<open>The sender's header handshake (urft\_client.py, lines 47--67)\<close>

text \<open>\<open>ack.decode()\<close> decodes UTF-8 strictly and raises \<open>UnicodeDecodeError\<close> on a byte
  sequence that is not valid UTF-8. The decoder below works on the values of the bytes
  and returns the code points.\<close>

definition continuation :: "nat \<Rightarrow> bool" where
  "continuation b \<longleftrightarrow> 0x80 \<le> b \<and> b \<le> 0xBF"

fun utf8_points :: "nat list \<Rightarrow> nat list option" where
  "utf8_points [] = Some []"
| "utf8_points [b] = (if b < 0x80 then Some [b] else None)"
| "utf8_points [b, b1] =
     (if b < 0x80 then map_option (Cons b) (utf8_points [b1])
      else if 0xC2 \<le> b \<and> b \<le> 0xDF \<and> continuation b1
      then Some [(b - 0xC0) * 64 + (b1 - 0x80)]
      else None)"
| "utf8_points [b, b1, b2] =
     (if b < 0x80 then map_option (Cons b) (utf8_points [b1, b2])
      else if 0xC2 \<le> b \<and> b \<le> 0xDF \<and> continuation b1
      then map_option (Cons ((b - 0xC0) * 64 + (b1 - 0x80))) (utf8_points [b2])
      else if 0xE0 \<le> b \<and> b \<le> 0xEF \<and> continuation b1 \<and> continuation b2
              \<and> (if b = 0xE0 then 0xA0 \<le> b1 else True)
              \<and> (if b = 0xED then b1 \<le> 0x9F else True)
      then Some [(b - 0xE0) * 4096 + (b1 - 0x80) * 64 + (b2 - 0x80)]
      else None)"
| "utf8_points (b # b1 # b2 # b3 # bs) =
     (if b < 0x80 then map_option (Cons b) (utf8_points (b1 # b2 # b3 # bs))
      else if 0xC2 \<le> b \<and> b \<le> 0xDF \<and> continuation b1
      then map_option (Cons ((b - 0xC0) * 64 + (b1 - 0x80))) (utf8_points (b2 # b3 # bs))
      else if 0xE0 \<le> b \<and> b \<le> 0xEF \<and> continuation b1 \<and> continuation b2
              \<and> (if b = 0xE0 then 0xA0 \<le> b1 else True)
              \<and> (if b = 0xED then b1 \<le> 0x9F else True)
      then map_option (Cons ((b - 0xE0) * 4096 + (b1 - 0x80) * 64 + (b2 - 0x80)))
             (utf8_points (b3 # bs))
      else if 0xF0 \<le> b \<and> b \<le> 0xF4 \<and> continuation b1 \<and> continuation b2 \<and> continuation b3
              \<and> (if b = 0xF0 then 0x90 \<le> b1 else True)
              \<and> (if b = 0xF4 then b1 \<le> 0x8F else True)
      then map_option
             (Cons ((b - 0xF0) * 262144 + (b1 - 0x80) * 4096 + (b2 - 0x80) * 64 + (b3 - 0x80)))
             (utf8_points bs)
      else None)"

definition decode_utf8 :: "bytes \<Rightarrow> py_error + nat list" where
  "decode_utf8 b =
     (case utf8_points (map of_char b) of
        None \<Rightarrow> Inl UnicodeDecodeError
      | Some points \<Rightarrow> Inr points)"

text \<open>The string \<open>"HEADER_ACK"\<close>, as code points.\<close>

definition HEADER_ACK :: "nat list" where
  "HEADER_ACK = map of_char ''HEADER_ACK''"

text \<open>What \<open>recvfrom\<close> does in an iteration of the header loop.\<close>

datatype hs_event = HsRecv bytes | HsTimeout

text \<open>How the header phase ends: the header was acknowledged, \<open>send_file\<close> returns
  \<open>False\<close> after \<open>MAX_RETRIES\<close> retries, an exception leaves \<open>send_file\<close>, or the
  loop is still waiting when the events end.\<close>

datatype hs_outcome = HsAcked | HsFailed | HsRaised py_error | HsWaiting int

text \<open>Lines 51--67: \<open>while not ack_received and retries < MAX_RETRIES\<close>; only
  \<open>socket.timeout\<close> is caught.\<close>

fun header_sync :: "hs_event list \<Rightarrow> int \<Rightarrow> hs_outcome" where
  "header_sync [] retries = (if retries < MAX_RETRIES then HsWaiting retries else HsFailed)"
| "header_sync (ev # evs) retries =
     (if retries < MAX_RETRIES then
        (case ev of
           HsTimeout \<Rightarrow> header_sync evs (retries + 1)
         | HsRecv ack \<Rightarrow>
             (case decode_utf8 ack of
                Inl e \<Rightarrow> HsRaised e
              | Inr text \<Rightarrow>
                  if text = HEADER_ACK then HsAcked else header_sync evs (retries + 1)))
      else HsFailed)"

text \<open>A datagram that decodes to something other than \<open>"HEADER_ACK"\<close>, or a timeout.\<close>

fun stray :: "hs_event \<Rightarrow> bool" where
  "stray HsTimeout = True"
| "stray (HsRecv ack) =
     (case decode_utf8 ack of Inl e \<Rightarrow> False | Inr text \<Rightarrow> text \<noteq> HEADER_ACK)"

subsection \<open>Facts about the framing\<close>

lemma u32_bytes:
  fixes x :: int
  assumes "0 \<le> x" "x < 2 ^ 32"
  shows "((x div 16777216 mod 256 * 256 + x div 65536 mod 256) * 256 + x div 256 mod 256) * 256
          + x mod 256 = x"
proof -
  have d1: "x div 65536 = x div 256 div 256"
    by (simp add: zdiv_zmult2_eq)
  have d2: "x div 16777216 = x div 256 div 256 div 256"
    by (simp add: zdiv_zmult2_eq)
  have top: "x div 16777216 < 256"
    using assms by simp
  have top0: "0 \<le> x div 16777216"
    using assms by simp
  have m3: "x div 16777216 mod 256 = x div 16777216"
    using top top0 by simp
  have e1: "x = x div 256 * 256 + x mod 256"
    by simp
  have e2: "x div 256 = x div 256 div 256 * 256 + x div 256 mod 256"
    by simp
  have e3: "x div 256 div 256 = x div 256 div 256 div 256 * 256 + x div 256 div 256 mod 256"
    by simp
  show ?thesis
    unfolding m3 unfolding d1 d2 using e1 e2 e3 by simp
qed

lemma be_int_pack4:
  assumes "0 \<le> x" "x < 2 ^ 32"
  shows "be_int [char_of (x div 2 ^ 24), char_of (x div 2 ^ 16), char_of (x div 2 ^ 8), char_of x] = x"
proof -
  have "be_int [char_of (x div 2 ^ 24), char_of (x div 2 ^ 16), char_of (x div 2 ^ 8), char_of x]
      = ((x div 16777216 mod 256 * 256 + x div 65536 mod 256) * 256 + x div 256 mod 256) * 256
          + x mod 256"
    by (simp add: be_int_def)
  also have "\<dots> = x"
    using assms by (rule u32_bytes)
  finally show ?thesis .
qed

lemma unpack_II_pack_II:
  assumes "pack_II x y = Inr b"
  shows "unpack_II b = Inr (x, y)"
proof -
  from assms have x0: "0 \<le> x" and x1: "x < 2 ^ 32" and y0: "0 \<le> y" and y1: "y < 2 ^ 32"
    by (auto simp: pack_II_def pack_I_def split: if_splits sum.splits)
  from assms x0 x1 y0 y1 have b: "b =
      [char_of (x div 2 ^ 24), char_of (x div 2 ^ 16), char_of (x div 2 ^ 8), char_of x] @
      [char_of (y div 2 ^ 24), char_of (y div 2 ^ 16), char_of (y div 2 ^ 8), char_of y]"
    by (auto simp: pack_II_def pack_I_def)
  have t: "take 4 b = [char_of (x div 2 ^ 24), char_of (x div 2 ^ 16), char_of (x div 2 ^ 8), char_of x]"
    unfolding b by simp
  have d: "drop 4 b = [char_of (y div 2 ^ 24), char_of (y div 2 ^ 16), char_of (y div 2 ^ 8), char_of y]"
    unfolding b by simp
  have "be_int (take 4 b) = x"
    unfolding t by (rule be_int_pack4 [OF x0 x1])
  moreover have "be_int (drop 4 b) = y"
    unfolding d by (rule be_int_pack4 [OF y0 y1])
  moreover have "length b = 8"
    unfolding b by simp
  ultimately show ?thesis
    by (simp add: unpack_II_def)
qed

lemma pack_II_length: "pack_II x y = Inr b \<Longrightarrow> length b = 8"
  by (auto simp: pack_II_def pack_I_def split: if_splits sum.splits)

lemma pack_I_length: "pack_I x = Inr b \<Longrightarrow> length b = 4"
  by (auto simp: pack_I_def split: if_splits)

lemma of_char_int_bounds: "0 \<le> (of_char c :: int) \<and> (of_char c :: int) < 256"
proof -
  have "(of_char c :: int) = int (of_char c)" by (simp add: of_nat_of_char)
  moreover have "(of_char c :: nat) < 256" by simp
  ultimately show ?thesis by linarith
qed

lemma be_int_4_bounds:
  assumes "length bs = 4"
  shows "0 \<le> be_int bs \<and> be_int bs < 2 ^ 32"
proof -
  from assms obtain a b c d where bs: "bs = [a, b, c, d]"
    by (auto simp: length_Suc_conv numeral_eq_Suc)
  show ?thesis
    unfolding bs be_int_def
    using of_char_int_bounds [of a] of_char_int_bounds [of b]
          of_char_int_bounds [of c] of_char_int_bounds [of d]
    by simp
qed

lemma decode_data_bounds:
  assumes "decode_data data = Inr (Decoded q tot c)"
  shows "0 \<le> q \<and> q < 2 ^ 32 \<and> 0 \<le> tot \<and> tot < 2 ^ 32"
proof -
  from assms have len: "length data \<ge> 8"
    by (auto simp: decode_data_def header_size_def split: if_splits)
  from assms len have q: "q = be_int (take 4 (take 8 data))" and t: "tot = be_int (drop 4 (take 8 data))"
    by (auto simp: decode_data_def header_size_def unpack_II_def split: if_splits)
  have "length (take 4 (take 8 data)) = 4" "length (drop 4 (take 8 data)) = 4"
    using len by auto
  then show ?thesis
    unfolding q t using be_int_4_bounds by blast
qed

subsection \<open>Facts about the receiver's loop\<close>

lemma keys_delete: "fst ` set (AList.delete k al) = fst ` set al - {k}"
proof -
  have "set (map fst (AList.delete k al)) = set (map fst al) - {k}"
    by (simp add: delete_keys)
  then show ?thesis by simp
qed

lemma map_of_key: "map_of al k = Some v \<Longrightarrow> k \<in> fst ` set al"
  by (metis domI dom_map_of_conv_image_fst)

lemma map_of_None_key: "map_of al k = None \<longleftrightarrow> k \<notin> fst ` set al"
  by (simp add: map_of_eq_None_iff)

lemma upto_snoc: "0 \<le> (e::int) \<Longrightarrow> [0..e - 1] @ [e] = [0..e + 1 - 1]"
  using upto_rec2 [of 0 e] by simp

lemma rx_inv_weak_drain_step:
  assumes inv: "rx_inv_weak s" and m: "map_of (received_packets s) (expected_seq s) = Some chunk"
  shows "rx_inv_weak (s\<lparr>written := written s @ [(expected_seq s, chunk)],
                   received_seq_nums := insert (expected_seq s) (received_seq_nums s),
                   received_packets := AList.delete (expected_seq s) (received_packets s),
                   expected_seq := expected_seq s + 1\<rparr>)"
proof -
  have k: "expected_seq s \<in> fst ` set (received_packets s)"
    using m by (rule map_of_key)
  with inv have lt: "expected_seq s < total_packets s" and ge: "0 \<le> expected_seq s"
    by (auto simp: rx_inv_weak_def)
  have w: "map fst (written s) @ [expected_seq s] = [0..expected_seq s + 1 - 1]"
    using inv upto_snoc [OF ge] by (simp add: rx_inv_weak_def)
  have d: "distinct (map fst (AList.delete (expected_seq s) (received_packets s)))"
    using inv by (simp add: rx_inv_weak_def distinct_delete)
  have r: "insert (expected_seq s) (received_seq_nums s) =
           {0..<expected_seq s + 1} \<union> (fst ` set (received_packets s) - {expected_seq s})"
    using inv k ge by (auto simp: rx_inv_weak_def)
  have b: "\<forall>k \<in> fst ` set (received_packets s) - {expected_seq s}.
             expected_seq s + 1 \<le> k \<and> k < total_packets s"
    using inv by (fastforce simp: rx_inv_weak_def)
  show ?thesis
    unfolding rx_inv_weak_def using ge lt w d r b by (simp add: keys_delete)
qed

lemma drain_inv: "rx_inv_weak s \<Longrightarrow> rx_inv (drain s)"
proof (induction s rule: drain.induct)
  case (1 s)
  show ?case
  proof (cases "map_of (received_packets s) (expected_seq s)")
    case None
    then have "drain s = s" by (simp add: drain.simps)
    with None "1.prems" show ?thesis by (simp add: rx_inv_def map_of_None_key)
  next
    case (Some chunk)
    have "rx_inv (drain (s\<lparr>written := written s @ [(expected_seq s, chunk)],
                   received_seq_nums := insert (expected_seq s) (received_seq_nums s),
                   received_packets := AList.delete (expected_seq s) (received_packets s),
                   expected_seq := expected_seq s + 1\<rparr>))"
      using "1.IH" [OF Some] rx_inv_weak_drain_step [OF "1.prems" Some] by blast
    then show ?thesis using Some by (subst drain.simps) simp
  qed
qed

lemma drain_mono:
  "expected_seq s \<le> expected_seq (drain s) \<and> (\<exists>r. written (drain s) = written s @ r)
   \<and> total_packets (drain s) = total_packets s \<and> high_rtt_mode (drain s) = high_rtt_mode s
   \<and> transfer_complete (drain s) = transfer_complete s
   \<and> last_activity_time (drain s) = last_activity_time s"
proof (induction s rule: drain.induct)
  case (1 s)
  show ?case
  proof (cases "map_of (received_packets s) (expected_seq s)")
    case None
    then show ?thesis by (simp add: drain.simps)
  next
    case (Some chunk)
    show ?thesis using "1.IH" [OF Some] Some by (subst (1 2 3 4 5 6) drain.simps) auto
  qed
qed

lemma float_overflows_large: "float_overflows n \<Longrightarrow> 100000 \<le> \<bar>n\<bar>"
  by (simp add: float_overflows_def)

lemma bind_total_pos:
  assumes "0 < pt" "bind_total fs pt 0 = Inr b"
  shows "0 < b"
  using assms by (auto simp: bind_total_def int_times_float_def split: if_splits)

lemma bind_total_keep: "tp \<noteq> 0 \<Longrightarrow> bind_total fs pt tp = Inr tp"
  by (simp add: bind_total_def)

lemma bind_total_raises:
  "bind_total fs pt tp = Inl e \<longleftrightarrow>
     tp = 0 \<and> float_overflows (expected_packets fs) \<and> e = OverflowError"
  by (auto simp: bind_total_def int_times_float_def)

lemma rx_inv_keys:
  assumes "rx_inv s" "k \<in> fst ` set (received_packets s)"
  shows "expected_seq s < k \<and> k < total_packets s"
proof -
  from assms have "expected_seq s \<le> k \<and> k < total_packets s"
    unfolding rx_inv_def rx_inv_weak_def by blast
  moreover from assms have "k \<noteq> expected_seq s"
    unfolding rx_inv_def by blast
  ultimately show ?thesis by linarith
qed

lemma rx_inv_bounds: "rx_inv s \<Longrightarrow> 0 \<le> expected_seq s \<and> expected_seq s \<le> total_packets s"
  unfolding rx_inv_def rx_inv_weak_def by blast

lemma rx_inv_written: "rx_inv s \<Longrightarrow> map fst (written s) = [0..expected_seq s - 1]"
  unfolding rx_inv_def rx_inv_weak_def by blast

lemma rx_inv_distinct: "rx_inv s \<Longrightarrow> distinct (map fst (received_packets s))"
  unfolding rx_inv_def rx_inv_weak_def by blast

lemma rx_inv_delivered:
  "rx_inv s \<Longrightarrow> received_seq_nums s = {0..<expected_seq s} \<union> fst ` set (received_packets s)"
  unfolding rx_inv_def rx_inv_weak_def by blast

lemma rx_inv_zero_total:
  assumes "rx_inv s" "total_packets s = 0"
  shows "expected_seq s = 0 \<and> received_packets s = [] \<and> received_seq_nums s = {} \<and> written s = []"
proof -
  from rx_inv_bounds [OF assms(1)] assms(2) have e: "expected_seq s = 0"
    by linarith
  have rp: "received_packets s = []"
  proof (cases "received_packets s")
    case Nil
    then show ?thesis .
  next
    case (Cons p ps)
    then have "fst p \<in> fst ` set (received_packets s)" by simp
    from rx_inv_keys [OF assms(1) this] e assms(2) show ?thesis by linarith
  qed
  have d: "received_seq_nums s = {}"
    using rx_inv_delivered [OF assms(1)] e rp by simp
  have w: "written s = []"
    using rx_inv_written [OF assms(1)] e by simp
  from e rp d w show ?thesis by blast
qed

lemma rx_inv_first_total:
  assumes inv: "rx_inv s" and z: "total_packets s = 0" and b: "0 < b"
  shows "rx_inv (s\<lparr>total_packets := b\<rparr>)"
  using rx_inv_zero_total [OF inv z] b by (simp add: rx_inv_def rx_inv_weak_def)

lemma rx_inv_bind:
  assumes inv: "rx_inv s" and pt: "0 < pt" and b: "bind_total fs pt (total_packets s) = Inr b"
  shows "rx_inv (s\<lparr>total_packets := b\<rparr>)"
proof (cases "total_packets s = 0")
  case True
  with b have "bind_total fs pt 0 = Inr b" by simp
  from rx_inv_first_total [OF inv True bind_total_pos [OF pt this]] show ?thesis .
next
  case False
  from bind_total_keep [OF False, of fs pt] b have "b = total_packets s" by simp
  then show ?thesis using inv by simp
qed

lemma rx_inv_complete: "rx_inv s \<Longrightarrow> rx_inv (s\<lparr>transfer_complete := b\<rparr>)"
  by (simp add: rx_inv_def rx_inv_weak_def)

lemma rx_inv_activity: "rx_inv s \<Longrightarrow> rx_inv (s\<lparr>last_activity_time := t\<rparr>)"
  by (simp add: rx_inv_def rx_inv_weak_def)

lemma rx_inv_high_rtt: "rx_inv s \<Longrightarrow> rx_inv (s\<lparr>high_rtt_mode := b\<rparr>)"
  by (simp add: rx_inv_def rx_inv_weak_def)

lemma rx_inv_deliver:
  assumes inv: "rx_inv s" and lt: "expected_seq s < total_packets s"
  shows "rx_inv_weak (s\<lparr>written := written s @ [(expected_seq s, c)],
                   received_seq_nums := insert (expected_seq s) (received_seq_nums s),
                   expected_seq := expected_seq s + 1\<rparr>)"
proof -
  from rx_inv_bounds [OF inv] have ge: "0 \<le> expected_seq s" by simp
  have w: "map fst (written s) @ [expected_seq s] = [0..expected_seq s + 1 - 1]"
    using rx_inv_written [OF inv] upto_snoc [OF ge] by simp
  have b: "\<forall>k \<in> fst ` set (received_packets s). expected_seq s + 1 \<le> k \<and> k < total_packets s"
  proof
    fix k assume "k \<in> fst ` set (received_packets s)"
    from rx_inv_keys [OF inv this] show "expected_seq s + 1 \<le> k \<and> k < total_packets s"
      by linarith
  qed
  have "insert (expected_seq s) {0..<expected_seq s} = {0..<expected_seq s + 1}"
    using ge by auto
  then have r: "insert (expected_seq s) (received_seq_nums s) =
           {0..<expected_seq s + 1} \<union> fst ` set (received_packets s)"
    using rx_inv_delivered [OF inv] by auto
  have d: "distinct (map fst (received_packets s))"
    using inv by (rule rx_inv_distinct)
  show ?thesis
    unfolding rx_inv_weak_def using ge lt w b r d by simp
qed

lemma rx_inv_buffer:
  assumes inv: "rx_inv s" and gt: "expected_seq s < q" and lt: "q < total_packets s"
  shows "rx_inv (s\<lparr>received_packets := AList.update q c (received_packets s),
                   received_seq_nums := insert q (received_seq_nums s)\<rparr>)"
proof -
  have d: "distinct (map fst (AList.update q c (received_packets s)))"
    using rx_inv_distinct [OF inv] by (rule distinct_update)
  have k: "fst ` set (AList.update q c (received_packets s)) = insert q (fst ` set (received_packets s))"
    using dom_update [of q c "received_packets s"] by simp
  have b: "\<forall>k \<in> insert q (fst ` set (received_packets s)). expected_seq s \<le> k \<and> k < total_packets s"
  proof
    fix k assume "k \<in> insert q (fst ` set (received_packets s))"
    then consider "k = q" | "k \<in> fst ` set (received_packets s)" by blast
    then show "expected_seq s \<le> k \<and> k < total_packets s"
    proof cases
      case 1 then show ?thesis using gt lt by simp
    next
      case 2 from rx_inv_keys [OF inv this] show ?thesis by simp
    qed
  qed
  have n: "expected_seq s \<notin> insert q (fst ` set (received_packets s))"
    using gt inv unfolding rx_inv_def by auto
  have r: "insert q (received_seq_nums s) =
      {0..<expected_seq s} \<union> insert q (fst ` set (received_packets s))"
    using rx_inv_delivered [OF inv] by auto
  show ?thesis
    unfolding rx_inv_def rx_inv_weak_def
    using rx_inv_bounds [OF inv] rx_inv_written [OF inv] d b n r by (simp add: k)
qed

lemma rx_dispatch_fin:
  assumes "q = total_packets s" "pt = total_packets s"
  shows "rx_dispatch q pt c s =
     (case pack_I (total_packets s) of
        Inl e \<Rightarrow> (s, [])
      | Inr a \<Rightarrow> (s\<lparr>transfer_complete := True\<rparr>,
           concat (replicate (if high_rtt_mode s then 15 else 5)
                     [SendTo a, Sleep (if high_rtt_mode s then 5 / 100 else 1 / 100)])))"
  using assms by (simp add: rx_dispatch_def Let_def)

lemma rx_dispatch_not_fin:
  assumes "\<not> (q = total_packets s \<and> pt = total_packets s)"
  shows "rx_dispatch q pt c s =
     (if q \<ge> total_packets s then (s, [])
      else if q \<in> received_seq_nums s then (s, send_ack q)
      else if q = expected_seq s then
        (drain (s\<lparr>written := written s @ [(q, c)],
                   received_seq_nums := insert q (received_seq_nums s),
                   expected_seq := expected_seq s + 1\<rparr>),
         send_ack q)
      else if q > expected_seq s then
        (s\<lparr>received_packets := AList.update q c (received_packets s),
           received_seq_nums := insert q (received_seq_nums s)\<rparr>,
         send_ack q)
      else (s, send_ack q))"
  unfolding rx_dispatch_def using assms by (rule if_not_P)

lemma rx_dispatch_inv:
  assumes i1: "rx_inv s1"
  shows "rx_inv (fst (rx_dispatch q pt c s1))"
proof (cases "q = total_packets s1 \<and> pt = total_packets s1")
  case True
  show ?thesis
  proof (cases "pack_I (total_packets s1)")
    case (Inl e)
    then show ?thesis using True i1 by (simp add: rx_dispatch_fin)
  next
    case (Inr a)
    then show ?thesis using True rx_inv_complete [OF i1, of True]
      by (simp add: rx_dispatch_fin)
  qed
next
  case False
  note nf = rx_dispatch_not_fin [OF False]
  show ?thesis
  proof (cases "q \<ge> total_packets s1")
    case True
    then show ?thesis using i1 by (simp add: nf)
  next
    case lt: False
    show ?thesis
    proof (cases "q \<in> received_seq_nums s1")
      case True
      then show ?thesis using i1 lt by (simp add: nf)
    next
      case nd: False
      show ?thesis
      proof (cases "q = expected_seq s1")
        case True
        have "rx_inv (drain (s1\<lparr>written := written s1 @ [(expected_seq s1, c)],
                   received_seq_nums := insert (expected_seq s1) (received_seq_nums s1),
                   expected_seq := expected_seq s1 + 1\<rparr>))"
          using lt True by (intro drain_inv rx_inv_deliver [OF i1]) simp
        then show ?thesis unfolding nf using lt nd True by simp
      next
        case ne: False
        show ?thesis
        proof (cases "q > expected_seq s1")
          case True
          have "rx_inv (s1\<lparr>received_packets := AList.update q c (received_packets s1),
                   received_seq_nums := insert q (received_seq_nums s1)\<rparr>)"
            using lt True by (intro rx_inv_buffer [OF i1]) simp_all
          then show ?thesis unfolding nf using lt nd ne True by simp
        next
          case False
          then show ?thesis using lt nd ne i1 by (simp add: nf)
        qed
      qed
    qed
  qed
qed

lemma rx_packet_inv:
  assumes inv: "rx_inv s" and pt: "0 < pt"
  shows "rx_inv (fst (rx_packet fs q pt c s))"
proof (cases "bind_total fs pt (total_packets s)")
  case (Inl e)
  then have "total_packets s = 0" by (simp add: bind_total_raises)
  from rx_inv_first_total [OF inv this pt] show ?thesis
    by (simp add: rx_packet_def Inl)
next
  case (Inr b)
  from rx_dispatch_inv [OF rx_inv_bind [OF inv pt Inr]] show ?thesis
    by (simp add: rx_packet_def Inr)
qed

lemma sanitize_total_pos:
  assumes "sanitize_total fs tot = Some pt" "0 \<le> tot"
  shows "0 < pt"
  using assms by (auto simp: sanitize_total_def split: if_splits)

lemma rx_datagram_inv:
  assumes inv: "rx_inv s"
  shows "rx_inv (fst (rx_datagram fs data s))"
proof (cases "data = ''RTT_PROBE''")
  case True
  then show ?thesis using rx_inv_high_rtt [OF inv, of True] by (simp add: rx_datagram_def)
next
  case np: False
  show ?thesis
  proof (cases "decode_data data")
    case (Inl e)
    then show ?thesis using np inv by (simp add: rx_datagram_def)
  next
    case (Inr d)
    show ?thesis
    proof (cases d)
      case Malformed
      then show ?thesis using np inv Inr by (simp add: rx_datagram_def)
    next
      case (Decoded q tot c)
      with Inr have dec: "decode_data data = Inr (Decoded q tot c)" by simp
      show ?thesis
      proof (cases "sanitize_total fs tot")
        case None
        then show ?thesis using np inv dec by (simp add: rx_datagram_def)
      next
        case (Some pt)
        from sanitize_total_pos [OF Some] decode_data_bounds [OF dec] have "0 < pt" by simp
        from rx_packet_inv [OF inv this] show ?thesis
          using np dec Some by (simp add: rx_datagram_def)
      qed
    qed
  qed
qed

lemma rx_step_inv:
  assumes "rx_inv s" "rx_step fs e s = Some (s', a)"
  shows "rx_inv s'"
proof (cases e)
  case (Datagram data t)
  from rx_datagram_inv [OF rx_inv_activity [OF assms(1), of t], of fs data] assms(2) Datagram
  show ?thesis by auto
next
  case (SocketTimeout t)
  with assms show ?thesis by (auto simp: Let_def split: if_splits)
next
  case (SocketError w)
  with assms rx_inv_complete [OF assms(1), of True] show ?thesis
    by (auto split: if_splits sum.splits)
next
  case OtherException
  with assms show ?thesis by simp
qed

lemma rx_run_inv:
  "rx_inv s \<Longrightarrow> rx_run fs es s = Some (s', a) \<Longrightarrow> rx_inv s'"
proof (induction es arbitrary: s a)
  case Nil
  then show ?case by simp
next
  case (Cons e es)
  show ?case
  proof (cases "transfer_complete s")
    case True
    with Cons.prems show ?thesis by simp
  next
    case False
    with Cons.prems obtain s1 a1 a2 where
      st: "rx_step fs e s = Some (s1, a1)" and rn: "rx_run fs es s1 = Some (s', a2)"
      by (auto split: option.splits)
    from rx_step_inv [OF Cons.prems(1) st] have "rx_inv s1" .
    from Cons.IH [OF this rn] show ?thesis .
  qed
qed

lemma rx_inv_init: "rx_inv (rx_init h t0)"
  by (simp add: rx_inv_def rx_inv_weak_def rx_init_def)

lemma rx_grows_refl: "rx_grows s s"
  by (simp add: rx_grows_def)

lemma rx_grows_trans: "rx_grows s s' \<Longrightarrow> rx_grows s' s'' \<Longrightarrow> rx_grows s s''"
  by (auto simp: rx_grows_def)

lemma drain_grows: "rx_grows s (drain s)"
  using drain_mono [of s] by (simp add: rx_grows_def)

lemma rx_dispatch_grows: "rx_grows s (fst (rx_dispatch q pt c s))"
proof (cases "q = total_packets s \<and> pt = total_packets s")
  case True
  then show ?thesis
    by (cases "pack_I (total_packets s)") (simp_all add: rx_dispatch_fin rx_grows_def)
next
  case False
  have "rx_grows s (drain (s\<lparr>written := written s @ [(q, c)],
                   received_seq_nums := insert q (received_seq_nums s),
                   expected_seq := expected_seq s + 1\<rparr>))"
    by (rule rx_grows_trans [OF _ drain_grows]) (simp add: rx_grows_def)
  then show ?thesis
    unfolding rx_dispatch_not_fin [OF False] by (auto simp: rx_grows_def)
qed

lemma rx_datagram_grows: "rx_grows s (fst (rx_datagram fs data s))"
proof -
  have "rx_grows s (fst (rx_packet fs q pt c s))" for q pt c
  proof (cases "bind_total fs pt (total_packets s)")
    case (Inl e)
    then show ?thesis by (simp add: rx_packet_def rx_grows_def)
  next
    case (Inr b)
    have "rx_grows s (fst (rx_dispatch q pt c (s\<lparr>total_packets := b\<rparr>)))"
      by (rule rx_grows_trans [OF _ rx_dispatch_grows]) (simp add: rx_grows_def)
    then show ?thesis by (simp add: rx_packet_def Inr)
  qed
  then show ?thesis
    by (simp add: rx_datagram_def rx_grows_refl split: sum.splits decoded.splits option.splits)
       (simp add: rx_grows_def)
qed

lemma rx_step_grows:
  assumes "rx_step fs e s = Some (s', a)"
  shows "rx_grows s s'"
proof (cases e)
  case (Datagram data t)
  have "rx_grows s (s\<lparr>last_activity_time := t\<rparr>)" by (simp add: rx_grows_def)
  from rx_grows_trans [OF this rx_datagram_grows [of _ fs data]] assms Datagram
  show ?thesis by auto
next
  case (SocketTimeout t)
  with assms show ?thesis by (auto simp: Let_def rx_grows_def split: if_splits)
next
  case (SocketError w)
  with assms show ?thesis by (auto simp: rx_grows_def split: if_splits sum.splits)
next
  case OtherException
  with assms show ?thesis by (simp add: rx_grows_def)
qed

lemma rx_run_grows:
  "rx_run fs es s = Some (s', a) \<Longrightarrow> rx_grows s s'"
proof (induction es arbitrary: s a)
  case Nil
  then show ?case by (simp add: rx_grows_def)
next
  case (Cons e es)
  show ?case
  proof (cases "transfer_complete s")
    case True
    with Cons.prems show ?thesis by (simp add: rx_grows_def)
  next
    case False
    with Cons.prems obtain s1 a1 a2 where
      st: "rx_step fs e s = Some (s1, a1)" and rn: "rx_run fs es s1 = Some (s', a2)"
      by (auto split: option.splits)
    from rx_grows_trans [OF rx_step_grows [OF st] Cons.IH [OF rn]] show ?thesis .
  qed
qed

lemma rx_run_complete: "transfer_complete s \<Longrightarrow> rx_run fs es s = Some (s, [])"
  by (cases es) simp_all

lemma rx_run_append:
  "rx_run fs (es1 @ es2) s = Some (s2, a2) \<Longrightarrow>
   \<exists>s1 a1 a'. rx_run fs es1 s = Some (s1, a1) \<and> rx_run fs es2 s1 = Some (s2, a') \<and> a2 = a1 @ a'"
proof (induction es1 arbitrary: s a2)
  case Nil
  then show ?case by simp
next
  case (Cons e es1)
  show ?case
  proof (cases "transfer_complete s")
    case True
    with Cons.prems have "s2 = s" "a2 = []" by simp_all
    with True show ?thesis by (simp add: rx_run_complete)
  next
    case False
    with Cons.prems obtain s' a a'' where
      st: "rx_step fs e s = Some (s', a)" and rn: "rx_run fs (es1 @ es2) s' = Some (s2, a'')"
      and a2: "a2 = a @ a''"
      by (auto split: option.splits)
    from Cons.IH [OF rn] obtain s1 a1 a' where
      "rx_run fs es1 s' = Some (s1, a1)" "rx_run fs es2 s1 = Some (s2, a')" "a'' = a1 @ a'"
      by blast
    with st False a2 show ?thesis by simp
  qed
qed

lemma rx_inv_all_delivered:
  assumes inv: "rx_inv s" and all: "{0..<total_packets s} \<subseteq> received_seq_nums s"
  shows "expected_seq s = total_packets s"
proof (rule ccontr)
  assume ne: "expected_seq s \<noteq> total_packets s"
  with rx_inv_bounds [OF inv] have lt: "expected_seq s < total_packets s" and ge: "0 \<le> expected_seq s"
    by simp_all
  then have "expected_seq s \<in> {0..<total_packets s}" by simp
  with all have "expected_seq s \<in> received_seq_nums s" by blast
  then have "expected_seq s \<in> fst ` set (received_packets s)"
    unfolding rx_inv_delivered [OF inv] by simp
  with inv show False unfolding rx_inv_def by simp
qed

lemma set_delete_subset: "set (AList.delete k al) \<subseteq> set al"
  by (auto simp: AList.delete_eq)

lemma set_update_subset: "set (AList.update k v al) \<subseteq> insert (k, v) (set al)"
  by (induction al) auto

lemma drain_prov: "rx_prov C s \<Longrightarrow> rx_prov C (drain s)"
proof (induction s rule: drain.induct)
  case (1 s)
  show ?case
  proof (cases "map_of (received_packets s) (expected_seq s)")
    case None
    with "1.prems" show ?thesis by (simp add: drain.simps)
  next
    case (Some chunk)
    then have "(expected_seq s, chunk) \<in> set (received_packets s)" by (rule map_of_SomeD)
    with "1.prems" set_delete_subset [of "expected_seq s" "received_packets s"]
    have "rx_prov C (s\<lparr>written := written s @ [(expected_seq s, chunk)],
                   received_seq_nums := insert (expected_seq s) (received_seq_nums s),
                   received_packets := AList.delete (expected_seq s) (received_packets s),
                   expected_seq := expected_seq s + 1\<rparr>)"
      by (auto simp: rx_prov_def)
    from "1.IH" [OF Some this] show ?thesis using Some by (subst drain.simps) simp
  qed
qed

lemma rx_dispatch_prov:
  assumes p: "rx_prov C s" and c: "(q, c) \<in> C"
  shows "rx_prov C (fst (rx_dispatch q pt c s))"
proof (cases "q = total_packets s \<and> pt = total_packets s")
  case True
  then show ?thesis using p
    by (cases "pack_I (total_packets s)") (simp_all add: rx_dispatch_fin rx_prov_def)
next
  case False
  have "rx_prov C (s\<lparr>written := written s @ [(q, c)],
                   received_seq_nums := insert q (received_seq_nums s),
                   expected_seq := expected_seq s + 1\<rparr>)"
    using p c by (simp add: rx_prov_def)
  then have d: "rx_prov C (drain (s\<lparr>written := written s @ [(q, c)],
                   received_seq_nums := insert q (received_seq_nums s),
                   expected_seq := expected_seq s + 1\<rparr>))"
    by (rule drain_prov)
  have b: "rx_prov C (s\<lparr>received_packets := AList.update q c (received_packets s),
           received_seq_nums := insert q (received_seq_nums s)\<rparr>)"
    using p c set_update_subset [of q c "received_packets s"] by (auto simp: rx_prov_def)
  show ?thesis
    unfolding rx_dispatch_not_fin [OF False] using p d b by auto
qed

lemma rx_prov_fields:
  "rx_prov C (s\<lparr>total_packets := x\<rparr>) = rx_prov C s"
  "rx_prov C (s\<lparr>last_activity_time := t\<rparr>) = rx_prov C s"
  "rx_prov C (s\<lparr>high_rtt_mode := b\<rparr>) = rx_prov C s"
  "rx_prov C (s\<lparr>transfer_complete := b\<rparr>) = rx_prov C s"
  by (simp_all add: rx_prov_def)

lemma rx_datagram_prov:
  assumes p: "rx_prov C s" and c: "set (decoded_of (Datagram data t)) \<subseteq> C"
  shows "rx_prov C (fst (rx_datagram fs data s))"
proof (cases "data = ''RTT_PROBE''")
  case True
  then show ?thesis using p by (simp add: rx_datagram_def rx_prov_fields)
next
  case np: False
  show ?thesis
  proof (cases "decode_data data")
    case (Inl e)
    then show ?thesis using np p by (simp add: rx_datagram_def)
  next
    case (Inr d)
    show ?thesis
    proof (cases d)
      case Malformed
      then show ?thesis using np p Inr by (simp add: rx_datagram_def)
    next
      case (Decoded q tot ch)
      with Inr have dec: "decode_data data = Inr (Decoded q tot ch)" by simp
      with c have qc: "(q, ch) \<in> C" by simp
      show ?thesis
      proof (cases "sanitize_total fs tot")
        case None
        then show ?thesis using np p dec by (simp add: rx_datagram_def)
      next
        case (Some pt)
        have "rx_prov C (fst (rx_packet fs q pt ch s))"
        proof (cases "bind_total fs pt (total_packets s)")
          case (Inl e)
          then show ?thesis using p by (simp add: rx_packet_def rx_prov_fields)
        next
          case (Inr b)
          have "rx_prov C (fst (rx_dispatch q pt ch (s\<lparr>total_packets := b\<rparr>)))"
            using p qc by (intro rx_dispatch_prov) (simp_all add: rx_prov_fields)
          then show ?thesis by (simp add: rx_packet_def Inr)
        qed
        then show ?thesis
          using np dec Some by (simp add: rx_datagram_def)
      qed
    qed
  qed
qed

lemma rx_step_prov:
  assumes "rx_prov C s" "set (decoded_of e) \<subseteq> C" "rx_step fs e s = Some (s', a)"
  shows "rx_prov C s'"
proof (cases e)
  case (Datagram data t)
  have "rx_prov C (s\<lparr>last_activity_time := t\<rparr>)" using assms(1) by (simp add: rx_prov_fields)
  from rx_datagram_prov [OF this, of data t fs] assms(2,3) Datagram
  show ?thesis by auto
next
  case (SocketTimeout t)
  with assms show ?thesis by (auto simp: Let_def split: if_splits)
next
  case (SocketError w)
  with assms show ?thesis by (auto simp: rx_prov_fields split: if_splits sum.splits)
next
  case OtherException
  with assms show ?thesis by simp
qed

lemma rx_run_prov:
  "rx_prov C s \<Longrightarrow> carried es \<subseteq> C \<Longrightarrow> rx_run fs es s = Some (s', a) \<Longrightarrow> rx_prov C s'"
proof (induction es arbitrary: s a)
  case Nil
  then show ?case by simp
next
  case (Cons e es)
  show ?case
  proof (cases "transfer_complete s")
    case True
    with Cons.prems show ?thesis by simp
  next
    case False
    with Cons.prems obtain s1 a1 a2 where
      st: "rx_step fs e s = Some (s1, a1)" and rn: "rx_run fs es s1 = Some (s', a2)"
      by (auto split: option.splits)
    from Cons.prems(2) have ce: "set (decoded_of e) \<subseteq> C" and ces: "carried es \<subseteq> C"
      by (simp_all add: carried_def)
    from rx_step_prov [OF Cons.prems(1) ce st] have "rx_prov C s1" .
    from Cons.IH [OF this ces rn] show ?thesis .
  qed
qed

lemma rx_prov_init: "rx_prov C (rx_init h t0)"
  by (simp add: rx_prov_def rx_init_def)

lemma drain_total: "total_packets (drain s) = total_packets s"
  using drain_mono [of s] by simp

lemma rx_dispatch_total: "total_packets (fst (rx_dispatch q pt c s)) = total_packets s"
proof (cases "q = total_packets s \<and> pt = total_packets s")
  case True
  then show ?thesis
    by (cases "pack_I (total_packets s)") (simp_all add: rx_dispatch_fin)
next
  case False
  show ?thesis
    unfolding rx_dispatch_not_fin [OF False] by (simp add: drain_total)
qed

lemma bind_total_int:
  "bind_total fs pt tp =
     (if tp = 0
      then (if float_overflows (expected_packets fs) then Inl OverflowError
            else Inr (if 2 * \<bar>pt - expected_packets fs\<bar> > expected_packets fs
                         \<and> 0 < expected_packets fs \<and> expected_packets fs < 100000
                      then expected_packets fs else pt))
      else Inr tp)"
proof -
  have "(\<bar>of_int (pt - expected_packets fs)\<bar> > (of_int (expected_packets fs) * (1 / 2) :: rat))
        \<longleftrightarrow> 2 * \<bar>pt - expected_packets fs\<bar> > expected_packets fs"
  proof -
    have "(\<bar>of_int (pt - expected_packets fs)\<bar> > (of_int (expected_packets fs) * (1 / 2) :: rat))
          \<longleftrightarrow> (of_int (expected_packets fs) :: rat) < of_int (2 * \<bar>pt - expected_packets fs\<bar>)"
      by (simp add: field_simps)
    also have "\<dots> \<longleftrightarrow> expected_packets fs < 2 * \<bar>pt - expected_packets fs\<bar>"
      by (rule of_int_less_iff)
    finally show ?thesis .
  qed
  then show ?thesis
    by (simp add: bind_total_def int_times_float_def MAX_REASONABLE_PACKETS_def)
qed

text \<open>The value of \<open>total_packets\<close> after lines 119--129, also when line 124 raised.\<close>

lemma rx_packet_total:
  "total_packets (fst (rx_packet fs q pt c s)) =
     (if total_packets s = 0
      then (if 2 * \<bar>pt - expected_packets fs\<bar> > expected_packets fs
               \<and> 0 < expected_packets fs \<and> expected_packets fs < 100000
            then expected_packets fs else pt)
      else total_packets s)"
proof (cases "total_packets s = 0 \<and> float_overflows (expected_packets fs)")
  case True
  then have "bind_total fs pt (total_packets s) = Inl OverflowError"
    by (simp add: bind_total_int)
  then have tp: "total_packets (fst (rx_packet fs q pt c s)) = pt"
    by (simp add: rx_packet_def)
  from True float_overflows_large [of "expected_packets fs"]
  have "\<not> (0 < expected_packets fs \<and> expected_packets fs < 100000)" by linarith
  then show ?thesis unfolding tp using True by auto
next
  case False
  then show ?thesis
    by (auto simp: rx_packet_def bind_total_int rx_dispatch_total)
qed

subsection \<open>Two runs of the receiver, evaluated\<close>

lemmas rx_eval = rx_datagram_def decode_data_def unpack_II_def be_int_def sanitize_total_def
  rx_packet_def rx_dispatch_def bind_total_def expected_packets_def drain.simps send_ack_def
  pack_I_def rx_init_def MAX_REASONABLE_PACKETS_def header_size_def Let_def
  int_times_float_def float_overflows_def

lemma rx_run_example:
  "rx_run 2000 ([Datagram (map char_of [0,0,0,1,0,0,0,2::int] @ ''b'') 1] @
                [Datagram (map char_of [0,0,0,0,0,0,0,2::int] @ ''a'') 2,
                 Datagram (map char_of [0,0,0,2,0,0,0,2::int]) 3]) (rx_init False 0)
   = Some (\<lparr>high_rtt_mode = False, received_seq_nums = {0, 1}, received_packets = [],
             expected_seq = 2, total_packets = 2, transfer_complete = True,
             last_activity_time = 3, written = [(0, ''a''), (1, ''b'')]\<rparr>,
           [SendTo (map char_of [0,0,0,1::int]), SendTo (map char_of [0,0,0,0::int])] @
           concat (replicate 5 [SendTo (map char_of [0,0,0,2::int]), Sleep (1 / 100)]))"
  by (simp add: rx_eval numeral_eq_Suc insert_commute)

lemma rx_run_marker_only:
  "rx_run 0 [Datagram (map char_of [0,0,0,5,0,0,0,5::int]) 1] (rx_init False 0)
   = Some (\<lparr>high_rtt_mode = False, received_seq_nums = {}, received_packets = [],
             expected_seq = 0, total_packets = 5, transfer_complete = True,
             last_activity_time = 1, written = []\<rparr>,
           concat (replicate 5 [SendTo (map char_of [0,0,0,5::int]), Sleep (1 / 100)]))"
  by (simp add: rx_eval)

lemma rx_run_nine_of_ten:
  "fst (the (rx_run 10240
       (map (\<lambda>k. Datagram (map char_of [0,0,0,k,0,0,0,10::int]) 1) [0,1,2,3,4,5,6,7,8]
        @ [SocketError (Some 10054)]) (rx_init False 0)))
  = \<lparr>high_rtt_mode = False, received_seq_nums = {0,1,2,3,4,5,6,7,8}, received_packets = [],
      expected_seq = 9, total_packets = 10, transfer_complete = False,
      last_activity_time = 1, written = map (\<lambda>k. (k, [])) [0,1,2,3,4,5,6,7,8]\<rparr>"
  by (simp add: rx_eval insert_commute)

text \<open>A header that announces \<open>10^320\<close> bytes: the expectation does not fit a float. The
  first data packet is dropped by the \<open>OverflowError\<close> of line 124 after line 120 has
  assigned \<open>total_packets\<close>; a connection reset after it ends \<open>receive_file\<close> with the
  \<open>OverflowError\<close> of line 217.\<close>

lemma overflow_drops_first_packet:
  assumes "float_overflows (expected_packets fs)" and "total_packets s = 0"
      and "data \<noteq> ''RTT_PROBE''" and "decode_data data = Inr (Decoded q tot c)"
      and "sanitize_total fs tot = Some pt"
  shows "rx_datagram fs data s = (s\<lparr>total_packets := pt\<rparr>, [])"
proof -
  from assms(1,2) have "bind_total fs pt (total_packets s) = Inl OverflowError"
    by (simp add: bind_total_int)
  then show ?thesis using assms(3-5) by (simp add: rx_datagram_def rx_packet_def)
qed

lemma expected_packets_huge: "float_overflows (expected_packets (10 ^ 320))"
  by (simp add: float_overflows_def expected_packets_def)

lemma rx_run_overflow_marker:
  "rx_run (10 ^ 320) [Datagram (map char_of [0,0,0,1,0,0,0,1::int]) 1] (rx_init False 0)
   = Some ((rx_init False 1)\<lparr>total_packets := 1\<rparr>, [])"
  by (simp add: rx_eval)

lemma rx_run_overflow_reset:
  "rx_run (10 ^ 320) [Datagram (map char_of [0,0,0,0,0,0,0,0::int] @ ''x'') 1] (rx_init False 0)
   = Some ((rx_init False 1)\<lparr>total_packets := expected_packets (10 ^ 320)\<rparr>, [])
   \<and> rx_run (10 ^ 320) [Datagram (map char_of [0,0,0,0,0,0,0,0::int] @ ''x'') 1,
                         SocketError (Some 10054)] (rx_init False 0) = None"
  by (simp add: rx_eval)

subsection \<open>Facts about the sender's loops\<close>

lemma effective_window_ge: "32 \<le> effective_window c"
  by (simp add: effective_window_def WINDOW_SIZE_def)

lemma max_burst_ge: "8 \<le> max_burst h e r a"
  by (simp add: max_burst_def Let_def)

lemma tx_inv_bounds:
  "tx_inv c st \<Longrightarrow> 0 \<le> base_seq_num st \<and> base_seq_num st \<le> next_seq_num st
     \<and> next_seq_num st \<le> tx_total c"
  unfolding tx_inv_def by blast

lemma tx_inv_distinct: "tx_inv c st \<Longrightarrow> distinct (map fst (window st))"
  unfolding tx_inv_def by blast

lemma tx_inv_keys:
  "tx_inv c st \<Longrightarrow> k \<in> fst ` set (window st) \<Longrightarrow> base_seq_num st \<le> k \<and> k < next_seq_num st"
  unfolding tx_inv_def by blast

lemma tx_inv_base:
  "tx_inv c st \<Longrightarrow> base_seq_num st \<in> fst ` set (window st) \<or> base_seq_num st = next_seq_num st"
  unfolding tx_inv_def by blast

lemma tx_inv_init: "tx_inv c tx_init"
  by (simp add: tx_inv_def tx_init_def tx_total_def)

lemma tx_next_fresh:
  assumes "tx_inv c st"
  shows "next_seq_num st \<notin> fst ` set (window st)"
proof
  assume "next_seq_num st \<in> fst ` set (window st)"
  from tx_inv_keys [OF assms this] show False by simp
qed

lemma tx_inv_send:
  assumes inv: "tx_inv c st" and lt: "next_seq_num st < tx_total c"
  shows "tx_inv c (st\<lparr>window := AList.update (next_seq_num st) e (window st),
                      next_seq_num := next_seq_num st + 1\<rparr>)"
proof -
  have k: "fst ` set (AList.update (next_seq_num st) e (window st))
           = insert (next_seq_num st) (fst ` set (window st))"
    using dom_update [of "next_seq_num st" e "window st"] by simp
  have d: "distinct (map fst (AList.update (next_seq_num st) e (window st)))"
    using tx_inv_distinct [OF inv] by (rule distinct_update)
  have b: "\<forall>k \<in> insert (next_seq_num st) (fst ` set (window st)).
             base_seq_num st \<le> k \<and> k < next_seq_num st + 1"
  proof
    fix k assume "k \<in> insert (next_seq_num st) (fst ` set (window st))"
    then consider "k = next_seq_num st" | "k \<in> fst ` set (window st)" by blast
    then show "base_seq_num st \<le> k \<and> k < next_seq_num st + 1"
    proof cases
      case 1 then show ?thesis using tx_inv_bounds [OF inv] by simp
    next
      case 2 from tx_inv_keys [OF inv this] show ?thesis by simp
    qed
  qed
  have j: "base_seq_num st \<in> insert (next_seq_num st) (fst ` set (window st))"
    using tx_inv_base [OF inv] by auto
  show ?thesis
    unfolding tx_inv_def using tx_inv_bounds [OF inv] lt d b j by (simp add: k)
qed

lemma length_update_fresh:
  "k \<notin> fst ` set al \<Longrightarrow> length (AList.update k v al) = Suc (length al)"
  by (induction al) auto

lemma length_send:
  assumes "tx_inv c st"
  shows "length (AList.update (next_seq_num st) e (window st)) = Suc (length (window st))"
  using tx_next_fresh [OF assms] by (rule length_update_fresh)

lemma send_burst_inv:
  "tx_inv c st \<Longrightarrow> send_burst c now burst k st = Inr (st', acts) \<Longrightarrow>
     tx_inv c st' \<and> base_seq_num st' = base_seq_num st
     \<and> (int (length (window st')) \<ge> effective_window c \<or> next_seq_num st' \<ge> tx_total c
        \<or> int (length (window st')) \<ge> int (length (window st)) + (burst - k))"
proof (induction c now burst k st arbitrary: st' acts rule: send_burst.induct)
  case (1 c now burst k st)
  let ?go = "int (length (window st)) < effective_window c \<and> next_seq_num st < tx_total c
         \<and> k < burst"
  show ?case
  proof (cases ?go)
    case False
    with "1.prems"(2) have "st' = st"
      by (subst (asm) send_burst.simps) simp
    with False "1.prems"(1) show ?thesis by auto
  next
    case True
    with "1.prems"(2) obtain chunk packet st2 acts2 where
      ch: "py_index (chunks c) (next_seq_num st) = Inr chunk" and
      pk: "encode_data (next_seq_num st) (tx_total c) chunk = Inr packet" and
      rec: "send_burst c now burst (k + 1)
              (st\<lparr>window := AList.update (next_seq_num st) (packet, now, 0) (window st),
                  next_seq_num := next_seq_num st + 1\<rparr>) = Inr (st2, acts2)" and
      st': "st' = st2"
      by (subst (asm) send_burst.simps) (auto split: sum.splits)
    let ?st1 = "st\<lparr>window := AList.update (next_seq_num st) (packet, now, 0) (window st),
                  next_seq_num := next_seq_num st + 1\<rparr>"
    from True have lt: "next_seq_num st < tx_total c" by simp
    have i1: "tx_inv c ?st1" using "1.prems"(1) lt by (rule tx_inv_send)
    from "1.IH" [OF True ch pk i1 rec]
    have r: "tx_inv c st2" "base_seq_num st2 = base_seq_num ?st1"
      "int (length (window st2)) \<ge> effective_window c \<or> next_seq_num st2 \<ge> tx_total c
        \<or> int (length (window st2)) \<ge> int (length (window ?st1)) + (burst - (k + 1))"
      by simp_all
    have "int (length (window ?st1)) = int (length (window st)) + 1"
      using length_send [OF "1.prems"(1)] by simp
    with r show ?thesis unfolding st' by auto
  qed
qed

lemma send_burst_keys:
  "send_burst c now burst k st = Inr (st', acts) \<Longrightarrow>
     fst ` set (window st) \<subseteq> fst ` set (window st') \<and> next_seq_num st \<le> next_seq_num st'
     \<and> (\<forall>j \<in> fst ` set (window st') - fst ` set (window st). next_seq_num st \<le> j)"
proof (induction c now burst k st arbitrary: st' acts rule: send_burst.induct)
  case (1 c now burst k st)
  let ?go = "int (length (window st)) < effective_window c \<and> next_seq_num st < tx_total c
         \<and> k < burst"
  show ?case
  proof (cases ?go)
    case False
    with "1.prems" have "st' = st"
      by (subst (asm) send_burst.simps) simp
    then show ?thesis by simp
  next
    case True
    with "1.prems" obtain chunk packet st2 acts2 where
      ch: "py_index (chunks c) (next_seq_num st) = Inr chunk" and
      pk: "encode_data (next_seq_num st) (tx_total c) chunk = Inr packet" and
      rec: "send_burst c now burst (k + 1)
              (st\<lparr>window := AList.update (next_seq_num st) (packet, now, 0) (window st),
                  next_seq_num := next_seq_num st + 1\<rparr>) = Inr (st2, acts2)" and
      st': "st' = st2"
      by (subst (asm) send_burst.simps) (auto split: sum.splits)
    have k: "fst ` set (AList.update (next_seq_num st) (packet, now, 0) (window st))
           = insert (next_seq_num st) (fst ` set (window st))"
      using dom_update [of "next_seq_num st" "(packet, now, 0)" "window st"] by simp
    from "1.IH" [OF True ch pk rec]
    have s: "insert (next_seq_num st) (fst ` set (window st)) \<subseteq> fst ` set (window st2)"
      and n: "next_seq_num st + 1 \<le> next_seq_num st2"
      and f: "\<forall>j \<in> fst ` set (window st2) - insert (next_seq_num st) (fst ` set (window st)).
                next_seq_num st + 1 \<le> j"
      by (simp_all add: k)
    have "\<forall>j \<in> fst ` set (window st2) - fst ` set (window st). next_seq_num st \<le> j"
    proof
      fix j assume j: "j \<in> fst ` set (window st2) - fst ` set (window st)"
      show "next_seq_num st \<le> j"
      proof (cases "j = next_seq_num st")
        case True then show ?thesis by simp
      next
        case False
        with j have "j \<in> fst ` set (window st2) - insert (next_seq_num st) (fst ` set (window st))"
          by blast
        with f have "next_seq_num st + 1 \<le> j" by blast
        then show ?thesis by simp
      qed
    qed
    with s n show ?thesis unfolding st' by auto
  qed
qed

lemma advance_base_ge: "base \<le> advance_base n w base"
proof (induction n w base rule: advance_base.induct)
  case (1 n w base)
  show ?case
  proof (cases "base < n \<and> map_of w base = None")
    case True
    from "1.IH" [OF True] show ?thesis using True by (subst advance_base.simps) simp
  next
    case False
    then show ?thesis by (subst advance_base.simps) auto
  qed
qed

lemma advance_base_le: "base \<le> n \<Longrightarrow> advance_base n w base \<le> n"
proof (induction n w base rule: advance_base.induct)
  case (1 n w base)
  show ?case
  proof (cases "base < n \<and> map_of w base = None")
    case True
    then have "base + 1 \<le> n" by simp
    from "1.IH" [OF True this] show ?thesis using True by (subst advance_base.simps) simp
  next
    case False
    then show ?thesis using "1.prems" by (subst advance_base.simps) auto
  qed
qed

lemma advance_base_hit: "advance_base n w base < n \<Longrightarrow> map_of w (advance_base n w base) \<noteq> None"
proof (induction n w base rule: advance_base.induct)
  case (1 n w base)
  show ?case
  proof (cases "base < n \<and> map_of w base = None")
    case True
    then have e: "advance_base n w base = advance_base n w (base + 1)"
      by (subst advance_base.simps) simp
    from "1.IH" [OF True] "1.prems" show ?thesis unfolding e by simp
  next
    case False
    then have e: "advance_base n w base = base"
      by (subst advance_base.simps) auto
    from False "1.prems" show ?thesis unfolding e by auto
  qed
qed

lemma advance_base_skip:
  "base \<le> j \<Longrightarrow> j < advance_base n w base \<Longrightarrow> map_of w j = None"
proof (induction n w base rule: advance_base.induct)
  case (1 n w base)
  show ?case
  proof (cases "base < n \<and> map_of w base = None")
    case True
    then have e: "advance_base n w base = advance_base n w (base + 1)"
      by (subst advance_base.simps) simp
    show ?thesis
    proof (cases "j = base")
      case True
      with \<open>base < n \<and> map_of w base = None\<close> show ?thesis by simp
    next
      case False
      with "1.prems"(1) have "base + 1 \<le> j" by simp
      from "1.IH" [OF True this] "1.prems"(2) show ?thesis unfolding e by simp
    qed
  next
    case False
    then have e: "advance_base n w base = base"
      by (subst advance_base.simps) auto
    from "1.prems" show ?thesis unfolding e by simp
  qed
qed

lemma map_of_in_keys: "map_of al k \<noteq> None \<longleftrightarrow> k \<in> fst ` set al"
  by (simp add: map_of_eq_None_iff)

lemma tx_inv_ack:
  assumes inv: "tx_inv c st"
      and big: "2 \<le> length (window st) \<or> next_seq_num st = tx_total c"
      and hit: "k \<in> fst ` set (window st)"
  shows "tx_inv c (st\<lparr>window := AList.delete k (window st),
                      base_seq_num := advance_base (tx_total c) (AList.delete k (window st))
                                        (base_seq_num st)\<rparr>)"
proof -
  define w where "w = AList.delete k (window st)"
  define b where "b = advance_base (tx_total c) w (base_seq_num st)"
  define K where "K = fst ` set (window st)"
  define K' where "K' = fst ` set w"
  note bd = tx_inv_bounds [OF inv]
  have keys: "K' = K - {k}"
    unfolding K'_def K_def w_def by (rule keys_delete)
  have Krange: "base_seq_num st \<le> j \<and> j < next_seq_num st" if "j \<in> K" for j
    using tx_inv_keys [OF inv] that unfolding K_def by blast
  have inK': "j \<in> K'" if "map_of w j \<noteq> None" for j
    using that unfolding K'_def by (simp add: map_of_eq_None_iff)
  have notK': "j \<notin> K'" if "map_of w j = None" for j
    using that unfolding K'_def by (simp add: map_of_eq_None_iff)
  have d: "distinct (map fst w)"
    unfolding w_def using tx_inv_distinct [OF inv] by (rule distinct_delete)
  have ge: "base_seq_num st \<le> b" unfolding b_def by (rule advance_base_ge)
  have le: "b \<le> tx_total c" unfolding b_def using bd by (intro advance_base_le) simp
  have below: "b \<le> j" if "j \<in> K'" for j
  proof (rule ccontr)
    assume "\<not> b \<le> j"
    then have "j < advance_base (tx_total c) w (base_seq_num st)" unfolding b_def by simp
    moreover from that keys have "j \<in> K" by simp
    from Krange [OF this] have "base_seq_num st \<le> j" by simp
    ultimately have "map_of w j = None" by (intro advance_base_skip)
    from notK' [OF this] that show False by simp
  qed
  have hitb: "b \<in> K'" if "b < tx_total c"
  proof -
    from that have "map_of w (advance_base (tx_total c) w (base_seq_num st)) \<noteq> None"
      unfolding b_def by (rule advance_base_hit)
    then show ?thesis unfolding b_def [symmetric] by (rule inK')
  qed
  have fin: "b \<in> K' \<or> b = next_seq_num st"
  proof (cases "K' = {}")
    case True
    have "card K = length (window st)"
      unfolding K_def using distinct_card [OF tx_inv_distinct [OF inv]] by simp
    moreover have "K \<subseteq> {k}" using True keys by simp
    then have "card K \<le> card {k}"
      by (intro card_mono) simp_all
    ultimately have "length (window st) \<le> 1" by simp
    with big have n: "next_seq_num st = tx_total c" by simp
    have "\<not> b < tx_total c"
      using hitb True by blast
    with le n show ?thesis by simp
  next
    case False
    then obtain j where j: "j \<in> K'" by (meson ex_in_conv)
    then have "j \<in> K" using keys by simp
    from Krange [OF this] below [OF j] bd have "b < tx_total c" by simp
    then show ?thesis using hitb by simp
  qed
  have nx: "b \<le> next_seq_num st"
  proof (cases "b \<in> K'")
    case True
    then have "b \<in> K" using keys by simp
    from Krange [OF this] show ?thesis by simp
  next
    case False
    with fin show ?thesis by simp
  qed
  have rng: "\<forall>j \<in> K'. b \<le> j \<and> j < next_seq_num st"
  proof
    fix j assume j: "j \<in> K'"
    then have "j \<in> K" using keys by simp
    from Krange [OF this] below [OF j] show "b \<le> j \<and> j < next_seq_num st" by simp
  qed
  have "tx_inv c (st\<lparr>window := w, base_seq_num := b\<rparr>)"
    unfolding tx_inv_def using bd ge nx d rng fin by (simp add: K'_def)
  then show ?thesis unfolding b_def w_def .
qed

lemma send_extra_inv:
  "tx_inv c st \<Longrightarrow> send_extra c now n st = (st', acts, err) \<Longrightarrow>
     tx_inv c st' \<and> base_seq_num st' = base_seq_num st \<and> next_seq_num st \<le> next_seq_num st'
     \<and> (\<forall>j \<in> fst ` set (window st'). j \<in> fst ` set (window st) \<or> next_seq_num st \<le> j)"
proof (induction n arbitrary: st st' acts err)
  case 0
  then show ?case by simp
next
  case (Suc n)
  show ?case
  proof (cases "next_seq_num st < tx_total c")
    case False
    with Suc.prems(2) have "send_extra c now n st = (st', acts, err)" by simp
    from Suc.IH [OF Suc.prems(1) this] show ?thesis .
  next
    case lt: True
    show ?thesis
    proof (cases "py_index (chunks c) (next_seq_num st)")
      case (Inl e)
      with lt Suc.prems show ?thesis by simp
    next
      case (Inr chunk)
      show ?thesis
      proof (cases "encode_data (next_seq_num st) (tx_total c) chunk")
        case (Inl e)
        with lt Inr Suc.prems show ?thesis by simp
      next
        case pk: (Inr packet)
        let ?st1 = "st\<lparr>window := AList.update (next_seq_num st) (packet, now, 0) (window st),
                  next_seq_num := next_seq_num st + 1\<rparr>"
        from Suc.prems(2) lt Inr pk obtain acts2 where
          rec: "send_extra c now n ?st1 = (st', acts2, err)"
          by (auto split: prod.splits)
        have i1: "tx_inv c ?st1" using Suc.prems(1) lt by (rule tx_inv_send)
        have k: "fst ` set (window ?st1) = insert (next_seq_num st) (fst ` set (window st))"
          using dom_update [of "next_seq_num st" "(packet, now, 0)" "window st"] by simp
        from Suc.IH [OF i1 rec]
        have r: "tx_inv c st'" "base_seq_num st' = base_seq_num st"
          "next_seq_num st + 1 \<le> next_seq_num st'"
          "\<forall>j \<in> fst ` set (window st').
              j \<in> insert (next_seq_num st) (fst ` set (window st)) \<or> next_seq_num st + 1 \<le> j"
          unfolding k by simp_all
        have "\<forall>j \<in> fst ` set (window st'). j \<in> fst ` set (window st) \<or> next_seq_num st \<le> j"
        proof
          fix j assume "j \<in> fst ` set (window st')"
          with r(4) have "j \<in> insert (next_seq_num st) (fst ` set (window st))
                          \<or> next_seq_num st + 1 \<le> j" by blast
          then show "j \<in> fst ` set (window st) \<or> next_seq_num st \<le> j" by auto
        qed
        with r show ?thesis by simp
      qed
    qed
  qed
qed

lemma recv_ack_malformed: "unpack_I ack = Inl e \<Longrightarrow> recv_ack c r now ack st = Next st []"
  by (simp add: recv_ack_def)

lemma recv_ack_absent:
  "unpack_I ack = Inr k \<Longrightarrow> map_of (window st) k = None \<Longrightarrow> recv_ack c r now ack st = Next st []"
  by (simp add: recv_ack_def)

lemma extra_sends_inv:
  assumes "tx_inv c st" and "extra_sends c r now st = (st', acts, err)"
  shows "tx_inv c st' \<and> base_seq_num st' = base_seq_num st \<and> next_seq_num st \<le> next_seq_num st'
     \<and> (\<forall>j \<in> fst ` set (window st'). j \<in> fst ` set (window st) \<or> next_seq_num st \<le> j)"
proof (cases "r < 40 \<and> int (length (window st)) < effective_window c div 2")
  case True
  with assms(2) have "send_extra c now (nat (min 3 (effective_window c - int (length (window st))))) st
      = (st', acts, err)"
    by (simp add: extra_sends_def Let_def)
  from send_extra_inv [OF assms(1) this] show ?thesis .
next
  case False
  with assms(2) have "st' = st" by (auto simp: extra_sends_def Let_def)
  with assms(1) show ?thesis by simp
qed

lemma recv_ack_hit:
  assumes "unpack_I ack = Inr k" and "map_of (window st) k \<noteq> None"
      and "recv_ack c r now ack st = Next st' acts"
  shows "\<exists>err. extra_sends c r now (ack_window c k st) = (st', acts, err)"
proof -
  obtain st3 acts3 err where x: "extra_sends c r now (ack_window c k st) = (st3, acts3, err)"
    by (rule prod_cases3)
  from assms x have "st' = st3 \<and> acts = acts3"
    by (simp add: recv_ack_def split: option.splits py_error.splits if_splits)
  with x show ?thesis by blast
qed

lemma ack_window_eq:
  "ack_window c k st = st\<lparr>window := AList.delete k (window st),
                      base_seq_num := advance_base (tx_total c) (AList.delete k (window st))
                                        (base_seq_num st)\<rparr>"
  by (simp add: ack_window_def Let_def)

lemma recv_ack_inv:
  assumes inv: "tx_inv c st"
      and big: "2 \<le> length (window st) \<or> next_seq_num st = tx_total c"
      and r: "recv_ack c rem now ack st = Next st' acts"
  shows "tx_inv c st' \<and> base_seq_num st \<le> base_seq_num st'
         \<and> (\<forall>k. unpack_I ack = Inr k \<longrightarrow> map_of (window st') k = None)"
proof (cases "unpack_I ack")
  case (Inl e)
  with r have "st' = st" by (simp add: recv_ack_malformed)
  with inv Inl show ?thesis by simp
next
  case (Inr k)
  show ?thesis
  proof (cases "map_of (window st) k = None")
    case True
    with r Inr have "st' = st" by (simp add: recv_ack_absent)
    with inv Inr True show ?thesis by simp
  next
    case False
    from False have hit: "k \<in> fst ` set (window st)" by (simp add: map_of_eq_None_iff)
    have i2: "tx_inv c (ack_window c k st)"
      unfolding ack_window_eq using inv big hit by (rule tx_inv_ack)
    from recv_ack_hit [OF Inr False r] obtain err where
      se: "extra_sends c rem now (ack_window c k st) = (st', acts, err)" by blast
    from extra_sends_inv [OF i2 se]
    have i3: "tx_inv c st'" and b3: "base_seq_num st' = base_seq_num (ack_window c k st)"
      and k3: "\<forall>j \<in> fst ` set (window st').
                 j \<in> fst ` set (window (ack_window c k st)) \<or> next_seq_num (ack_window c k st) \<le> j"
      by simp_all
    have "base_seq_num st \<le> base_seq_num (ack_window c k st)"
      unfolding ack_window_eq using advance_base_ge by simp
    with b3 have mono: "base_seq_num st \<le> base_seq_num st'" by simp
    have "k \<notin> fst ` set (window st')"
    proof
      assume "k \<in> fst ` set (window st')"
      with k3 have "k \<in> fst ` set (window (ack_window c k st))
                    \<or> next_seq_num (ack_window c k st) \<le> k" by blast
      moreover have "k \<notin> fst ` set (window (ack_window c k st))"
        unfolding ack_window_eq by (simp add: delete_notin_dom)
      moreover from tx_inv_keys [OF inv hit] have "k < next_seq_num (ack_window c k st)"
        unfolding ack_window_eq by simp
      ultimately show False by simp
    qed
    then have "map_of (window st') k = None" by (simp add: map_of_eq_None_iff)
    with i3 mono Inr show ?thesis by simp
  qed
qed

lemma tx_inv_same_keys:
  assumes "tx_inv c st" and "fst ` set (window st') = fst ` set (window st)"
      and "distinct (map fst (window st'))" and "base_seq_num st' = base_seq_num st"
      and "next_seq_num st' = next_seq_num st"
  shows "tx_inv c st'"
  using assms unfolding tx_inv_def by simp

lemma retransmit_inv:
  "tx_inv c st \<Longrightarrow> retransmit c now a ks st = Next st' acts \<Longrightarrow>
     tx_inv c st' \<and> base_seq_num st' = base_seq_num st"
proof (induction ks arbitrary: st st' acts)
  case Nil
  then show ?case by simp
next
  case (Cons k ks)
  show ?case
  proof (cases "map_of (window st) k")
    case None
    with Cons.prems(2) show ?thesis by simp
  next
    case (Some e)
    obtain packet sent_time retries where e: "e = (packet, sent_time, retries)"
      by (rule prod_cases3)
    let ?due = "now - sent_time >
               dynamic_timeout (extreme_rtt_mode c) (tx_high_rtt_mode c) (effective_timeout c)
                 retries (remaining_time_percent c now) a"
    show ?thesis
    proof (cases ?due)
      case False
      with Cons.prems(2) Some e have "retransmit c now a ks st = Next st' acts" by simp
      from Cons.IH [OF Cons.prems(1) this] show ?thesis .
    next
      case True
      let ?st1 = "st\<lparr>window := AList.update k (packet, now, retries + 1) (window st)\<rparr>"
      from Cons.prems(2) Some e True obtain acts1 where
        rec: "retransmit c now a ks ?st1 = Next st' acts1"
        by (auto split: if_splits tx_outcome.splits)
      from Some have kin: "k \<in> fst ` set (window st)"
        by (metis domI dom_map_of_conv_image_fst)
      have keys: "fst ` set (window ?st1) = fst ` set (window st)"
        using dom_update [of k "(packet, now, retries + 1)" "window st"] kin by auto
      have d: "distinct (map fst (window ?st1))"
        using tx_inv_distinct [OF Cons.prems(1)] by (simp add: distinct_update)
      have "tx_inv c ?st1"
        using Cons.prems(1) keys d by (rule tx_inv_same_keys) simp_all
      from Cons.IH [OF this rec] show ?thesis by simp
    qed
  qed
qed

lemma tx_iteration_inv:
  assumes inv: "tx_inv c st" and r: "tx_iteration c now send_time ev st = Next st' acts"
  shows "tx_inv c st' \<and> base_seq_num st \<le> base_seq_num st'"
proof -
  define rem where "rem = remaining_time_percent c now"
  define prog where "prog = actual_progress_percent c st"
  define burst where "burst = max_burst (tx_high_rtt_mode c) (extreme_rtt_mode c) rem prog"
  from r obtain st1 acts1 where
    sb: "send_burst c send_time burst 0 st = Inr (st1, acts1)"
    unfolding burst_def rem_def prog_def
    by (auto simp: tx_iteration_def split: if_splits sum.splits)
  from r sb obtain acts2 where
    ev: "tx_handle c rem prog ev st1 = Next st' acts2"
    unfolding burst_def rem_def prog_def
    by (auto simp: tx_iteration_def split: if_splits tx_outcome.splits)
  from send_burst_inv [OF inv sb]
  have i1: "tx_inv c st1" and b1: "base_seq_num st1 = base_seq_num st"
    and sz: "int (length (window st1)) \<ge> effective_window c \<or> next_seq_num st1 \<ge> tx_total c
        \<or> int (length (window st1)) \<ge> int (length (window st)) + (burst - 0)"
    by simp_all
  have "8 \<le> burst" unfolding burst_def by (rule max_burst_ge)
  with sz effective_window_ge [of c] tx_inv_bounds [OF i1]
  have big: "2 \<le> length (window st1) \<or> next_seq_num st1 = tx_total c"
    by linarith
  show ?thesis
  proof (cases ev)
    case (Recv ack t)
    with ev have "recv_ack c rem t ack st1 = Next st' acts2" by (simp add: tx_handle_def)
    from recv_ack_inv [OF i1 big this] b1 show ?thesis by simp
  next
    case (RecvTimeout t)
    with ev have "retransmit c t prog (map fst (window st1)) st1 = Next st' acts2"
      by (simp add: tx_handle_def)
    from retransmit_inv [OF i1 this] b1 show ?thesis by simp
  qed
qed

lemma tx_stream_inv:
  "tx_inv c st \<Longrightarrow> tx_stream c evs st = Next st' acts \<Longrightarrow>
     tx_inv c st' \<and> base_seq_num st \<le> base_seq_num st'"
proof (induction evs arbitrary: st acts)
  case Nil
  then show ?case by simp
next
  case (Cons ev evs)
  obtain now send_time e where ev: "ev = (now, send_time, e)" by (rule prod_cases3)
  show ?case
  proof (cases "base_seq_num st < tx_total c")
    case False
    with Cons.prems ev show ?thesis by simp
  next
    case True
    with Cons.prems(2) ev obtain st1 a1 a2 where
      it: "tx_iteration c now send_time e st = Next st1 a1" and
      rest: "tx_stream c evs st1 = Next st' a2"
      by (auto split: tx_outcome.splits)
    from tx_iteration_inv [OF Cons.prems(1) it]
    have i1: "tx_inv c st1" and m1: "base_seq_num st \<le> base_seq_num st1" by simp_all
    from Cons.IH [OF i1 rest] m1 show ?thesis by simp
  qed
qed

lemma send_extra_keys:
  "send_extra c now n st = (st', acts, err) \<Longrightarrow>
     next_seq_num st \<le> next_seq_num st' \<and> base_seq_num st' = base_seq_num st
     \<and> (\<forall>j \<in> fst ` set (window st'). j \<in> fst ` set (window st) \<or> next_seq_num st \<le> j)"
proof (induction n arbitrary: st st' acts err)
  case 0
  then show ?case by simp
next
  case (Suc n)
  show ?case
  proof (cases "next_seq_num st < tx_total c")
    case False
    with Suc.prems have "send_extra c now n st = (st', acts, err)" by simp
    from Suc.IH [OF this] show ?thesis .
  next
    case lt: True
    show ?thesis
    proof (cases "py_index (chunks c) (next_seq_num st)")
      case (Inl e)
      with lt Suc.prems show ?thesis by simp
    next
      case (Inr chunk)
      show ?thesis
      proof (cases "encode_data (next_seq_num st) (tx_total c) chunk")
        case (Inl e)
        with lt Inr Suc.prems show ?thesis by simp
      next
        case pk: (Inr packet)
        let ?st1 = "st\<lparr>window := AList.update (next_seq_num st) (packet, now, 0) (window st),
                  next_seq_num := next_seq_num st + 1\<rparr>"
        from Suc.prems lt Inr pk obtain acts2 where
          rec: "send_extra c now n ?st1 = (st', acts2, err)"
          by (auto split: prod.splits)
        have k: "fst ` set (window ?st1) = insert (next_seq_num st) (fst ` set (window st))"
          using dom_update [of "next_seq_num st" "(packet, now, 0)" "window st"] by simp
        from Suc.IH [OF rec]
        have r: "next_seq_num st + 1 \<le> next_seq_num st'"
          "\<forall>j \<in> fst ` set (window st').
              j \<in> insert (next_seq_num st) (fst ` set (window st)) \<or> next_seq_num st + 1 \<le> j"
          "base_seq_num st' = base_seq_num st"
          unfolding k by simp_all
        have "\<forall>j \<in> fst ` set (window st'). j \<in> fst ` set (window st) \<or> next_seq_num st \<le> j"
        proof
          fix j assume "j \<in> fst ` set (window st')"
          with r(2) have "j \<in> insert (next_seq_num st) (fst ` set (window st))
                          \<or> next_seq_num st + 1 \<le> j" by blast
          then show "j \<in> fst ` set (window st) \<or> next_seq_num st \<le> j" by auto
        qed
        with r show ?thesis by simp
      qed
    qed
  qed
qed

lemma extra_sends_keys:
  assumes "extra_sends c r now st = (st', acts, err)"
  shows "\<forall>j \<in> fst ` set (window st'). j \<in> fst ` set (window st) \<or> next_seq_num st \<le> j"
proof (cases "r < 40 \<and> int (length (window st)) < effective_window c div 2")
  case True
  with assms have "send_extra c now (nat (min 3 (effective_window c - int (length (window st))))) st
      = (st', acts, err)"
    by (simp add: extra_sends_def Let_def)
  from send_extra_keys [OF this] show ?thesis by simp
next
  case False
  with assms have "st' = st" by (auto simp: extra_sends_def Let_def)
  then show ?thesis by simp
qed

lemma extra_sends_base:
  assumes "extra_sends c r now st = (st', acts, err)"
  shows "base_seq_num st' = base_seq_num st"
proof (cases "r < 40 \<and> int (length (window st)) < effective_window c div 2")
  case True
  with assms have "send_extra c now (nat (min 3 (effective_window c - int (length (window st))))) st
      = (st', acts, err)"
    by (simp add: extra_sends_def Let_def)
  from send_extra_keys [OF this] show ?thesis by simp
next
  case False
  with assms have "st' = st" by (auto simp: extra_sends_def Let_def)
  then show ?thesis by simp
qed

lemma recv_ack_twice:
  assumes lt: "\<forall>k \<in> fst ` set (window st). k < next_seq_num st"
      and r: "recv_ack c rem now ack st = Next st' acts"
  shows "recv_ack c rem' now' ack st' = Next st' [] \<and> base_seq_num st \<le> base_seq_num st'"
proof (cases "unpack_I ack")
  case (Inl e)
  with r have "st' = st" by (simp add: recv_ack_malformed)
  with Inl show ?thesis by (simp add: recv_ack_malformed)
next
  case (Inr k)
  show ?thesis
  proof (cases "map_of (window st) k = None")
    case True
    with r Inr have "st' = st" by (simp add: recv_ack_absent)
    with Inr True show ?thesis by (simp add: recv_ack_absent)
  next
    case False
    from False have hit: "k \<in> fst ` set (window st)" by (simp add: map_of_eq_None_iff)
    from recv_ack_hit [OF Inr False r] obtain err where
      se: "extra_sends c rem now (ack_window c k st) = (st', acts, err)" by blast
    have "k \<notin> fst ` set (window st')"
    proof
      assume "k \<in> fst ` set (window st')"
      with extra_sends_keys [OF se]
      have "k \<in> fst ` set (window (ack_window c k st))
                    \<or> next_seq_num (ack_window c k st) \<le> k" by blast
      moreover have "k \<notin> fst ` set (window (ack_window c k st))"
        unfolding ack_window_eq by (simp add: delete_notin_dom)
      moreover from lt hit have "k < next_seq_num st" by blast
      then have "k < next_seq_num (ack_window c k st)"
        unfolding ack_window_eq by simp
      ultimately show False by simp
    qed
    then have "map_of (window st') k = None" by (simp add: map_of_eq_None_iff)
    with Inr have tw: "recv_ack c rem' now' ack st' = Next st' []" by (simp add: recv_ack_absent)
    have "base_seq_num st \<le> base_seq_num (ack_window c k st)"
      unfolding ack_window_eq using advance_base_ge by simp
    with extra_sends_base [OF se] tw show ?thesis by simp
  qed
qed

lemma header_sync_strays:
  "0 \<le> retries \<Longrightarrow> retries \<le> MAX_RETRIES \<Longrightarrow> int (length evs) = MAX_RETRIES - retries
     \<Longrightarrow> list_all stray evs \<Longrightarrow> header_sync evs retries = HsFailed"
proof (induction evs arbitrary: retries)
  case Nil
  then show ?case by simp
next
  case (Cons ev evs)
  from Cons.prems have lt: "retries < MAX_RETRIES" by simp
  have rec: "header_sync evs (retries + 1) = HsFailed"
    using Cons.prems by (intro Cons.IH) simp_all
  show ?case
  proof (cases ev)
    case HsTimeout
    with lt rec show ?thesis by simp
  next
    case (HsRecv ack)
    with Cons.prems(4) obtain str where "decode_utf8 ack = Inr str" "str \<noteq> HEADER_ACK"
      by (auto split: sum.splits)
    with HsRecv lt rec show ?thesis by simp
  qed
qed

lemma dynamic_timeout_floor:
  assumes "remaining < 50" and "\<not> (remaining < 20 \<and> progress > 75)"
  shows "dynamic_timeout e h t r remaining progress \<ge> TIMEOUT * 0.2"
  unfolding dynamic_timeout_def Let_def if_P [OF assms(1)] if_not_P [OF assms(2)]
  by (rule max.cobounded1)

lemma send_extra_grows:
  "send_extra c now n st = (st', acts, err) \<Longrightarrow> fst ` set (window st) \<subseteq> fst ` set (window st')"
proof (induction n arbitrary: st st' acts err)
  case 0
  then show ?case by simp
next
  case (Suc n)
  show ?case
  proof (cases "next_seq_num st < tx_total c")
    case False
    with Suc.prems have "send_extra c now n st = (st', acts, err)" by simp
    from Suc.IH [OF this] show ?thesis .
  next
    case lt: True
    show ?thesis
    proof (cases "py_index (chunks c) (next_seq_num st)")
      case (Inl e)
      with lt Suc.prems show ?thesis by simp
    next
      case (Inr chunk)
      show ?thesis
      proof (cases "encode_data (next_seq_num st) (tx_total c) chunk")
        case (Inl e)
        with lt Inr Suc.prems show ?thesis by simp
      next
        case pk: (Inr packet)
        let ?st1 = "st\<lparr>window := AList.update (next_seq_num st) (packet, now, 0) (window st),
                  next_seq_num := next_seq_num st + 1\<rparr>"
        from Suc.prems lt Inr pk obtain acts2 where
          rec: "send_extra c now n ?st1 = (st', acts2, err)"
          by (auto split: prod.splits)
        have k: "fst ` set (window ?st1) = insert (next_seq_num st) (fst ` set (window st))"
          using dom_update [of "next_seq_num st" "(packet, now, 0)" "window st"] by simp
        from Suc.IH [OF rec] show ?thesis unfolding k by simp
      qed
    qed
  qed
qed

lemma extra_sends_grows:
  assumes "extra_sends c r now st = (st', acts, err)"
  shows "fst ` set (window st) \<subseteq> fst ` set (window st')"
proof (cases "r < 40 \<and> int (length (window st)) < effective_window c div 2")
  case True
  with assms have "send_extra c now (nat (min 3 (effective_window c - int (length (window st))))) st
      = (st', acts, err)"
    by (simp add: extra_sends_def Let_def)
  then show ?thesis by (rule send_extra_grows)
next
  case False
  with assms have "st' = st" by (auto simp: extra_sends_def Let_def)
  then show ?thesis by simp
qed

lemma recv_ack_base_at:
  assumes le: "base_seq_num st \<le> tx_total c"
      and at: "base_seq_num st \<in> fst ` set (window st) \<or> base_seq_num st = tx_total c"
      and r: "recv_ack c rem now ack st = Next st' acts"
  shows "base_seq_num st' \<in> fst ` set (window st') \<or> base_seq_num st' = tx_total c"
proof (cases "unpack_I ack")
  case (Inl e)
  with r have "st' = st" by (simp add: recv_ack_malformed)
  with at show ?thesis by simp
next
  case (Inr k)
  show ?thesis
  proof (cases "map_of (window st) k = None")
    case True
    with r Inr have "st' = st" by (simp add: recv_ack_absent)
    with at show ?thesis by simp
  next
    case False
    from recv_ack_hit [OF Inr False r] obtain err where
      se: "extra_sends c rem now (ack_window c k st) = (st', acts, err)" by blast
    define w where "w = AList.delete k (window st)"
    define b where "b = advance_base (tx_total c) w (base_seq_num st)"
    have aw: "window (ack_window c k st) = w" "base_seq_num (ack_window c k st) = b"
      unfolding ack_window_eq w_def b_def by simp_all
    have "b \<le> tx_total c" unfolding b_def using le by (rule advance_base_le)
    moreover have "b \<in> fst ` set w" if "b < tx_total c"
    proof -
      from that have "map_of w (advance_base (tx_total c) w (base_seq_num st)) \<noteq> None"
        unfolding b_def by (rule advance_base_hit)
      then show ?thesis unfolding b_def [symmetric] by (simp add: map_of_eq_None_iff)
    qed
    ultimately have "b \<in> fst ` set w \<or> b = tx_total c" by linarith
    moreover have "fst ` set w \<subseteq> fst ` set (window st')"
      using extra_sends_grows [OF se] unfolding aw .
    moreover have "base_seq_num st' = b"
      using extra_sends_base [OF se] unfolding aw .
    ultimately show ?thesis by blast
  qed
qed

lemma retransmit_keys:
  "retransmit c now a ks st = Next st' acts \<Longrightarrow>
     fst ` set (window st') = fst ` set (window st) \<and> base_seq_num st' = base_seq_num st"
proof (induction ks arbitrary: st st' acts)
  case Nil
  then show ?case by simp
next
  case (Cons k ks)
  show ?case
  proof (cases "map_of (window st) k")
    case None
    with Cons.prems show ?thesis by simp
  next
    case (Some e)
    obtain packet sent_time retries where e: "e = (packet, sent_time, retries)"
      by (rule prod_cases3)
    let ?due = "now - sent_time >
               dynamic_timeout (extreme_rtt_mode c) (tx_high_rtt_mode c) (effective_timeout c)
                 retries (remaining_time_percent c now) a"
    show ?thesis
    proof (cases ?due)
      case False
      with Cons.prems Some e have "retransmit c now a ks st = Next st' acts" by simp
      from Cons.IH [OF this] show ?thesis .
    next
      case True
      let ?st1 = "st\<lparr>window := AList.update k (packet, now, retries + 1) (window st)\<rparr>"
      from Cons.prems Some e True obtain acts1 where
        rec: "retransmit c now a ks ?st1 = Next st' acts1"
        by (auto split: if_splits tx_outcome.splits)
      from Some have kin: "k \<in> fst ` set (window st)"
        by (metis domI dom_map_of_conv_image_fst)
      have keys: "fst ` set (window ?st1) = fst ` set (window st)"
        using dom_update [of k "(packet, now, retries + 1)" "window st"] kin by auto
      from Cons.IH [OF rec] show ?thesis unfolding keys by simp
    qed
  qed
qed

lemma send_burst_base_in:
  assumes inv: "tx_inv c st" and lt: "base_seq_num st < tx_total c" and pos: "0 < burst"
      and sb: "send_burst c now burst 0 st = Inr (st', acts)"
  shows "base_seq_num st' \<in> fst ` set (window st')"
proof -
  from send_burst_inv [OF inv sb] have b: "base_seq_num st' = base_seq_num st" by simp
  from tx_inv_base [OF inv] show ?thesis
  proof
    assume "base_seq_num st \<in> fst ` set (window st)"
    with send_burst_keys [OF sb] b show ?thesis by auto
  next
    assume eq: "base_seq_num st = next_seq_num st"
    have "window st = []"
    proof (cases "window st")
      case Nil
      then show ?thesis .
    next
      case (Cons p ps)
      then have "fst p \<in> fst ` set (window st)" by simp
      from tx_inv_keys [OF inv this] eq have False by linarith
      then show ?thesis ..
    qed
    with lt eq pos effective_window_ge [of c]
    have go: "int (length (window st)) < effective_window c \<and> next_seq_num st < tx_total c
         \<and> 0 < burst" by simp
    with sb obtain chunk packet st2 acts2 where
      rec: "send_burst c now burst (0 + 1)
              (st\<lparr>window := AList.update (next_seq_num st) (packet, now, 0) (window st),
                  next_seq_num := next_seq_num st + 1\<rparr>) = Inr (st2, acts2)" and
      st': "st' = st2"
      by (subst (asm) send_burst.simps) (auto split: sum.splits)
    have "next_seq_num st \<in> fst ` set (AList.update (next_seq_num st) (packet, now, 0) (window st))"
      using dom_update [of "next_seq_num st" "(packet, now, 0)" "window st"] by simp
    with send_burst_keys [OF rec] have "next_seq_num st \<in> fst ` set (window st2)" by auto
    with b eq st' show ?thesis by simp
  qed
qed

lemma tx_iteration_base_at:
  assumes inv: "tx_inv c st" and lt: "base_seq_num st < tx_total c"
      and r: "tx_iteration c now send_time ev st = Next st' acts"
  shows "base_seq_num st' \<in> fst ` set (window st') \<or> base_seq_num st' = tx_total c"
proof -
  define rem where "rem = remaining_time_percent c now"
  define prog where "prog = actual_progress_percent c st"
  define burst where "burst = max_burst (tx_high_rtt_mode c) (extreme_rtt_mode c) rem prog"
  from r obtain st1 acts1 where
    sb: "send_burst c send_time burst 0 st = Inr (st1, acts1)"
    unfolding burst_def rem_def prog_def
    by (auto simp: tx_iteration_def split: if_splits sum.splits)
  from r sb obtain acts2 where
    ev: "tx_handle c rem prog ev st1 = Next st' acts2"
    unfolding burst_def rem_def prog_def
    by (auto simp: tx_iteration_def split: if_splits tx_outcome.splits)
  have "8 \<le> burst" unfolding burst_def by (rule max_burst_ge)
  then have pos: "0 < burst" by simp
  from send_burst_base_in [OF inv lt pos sb] have at1: "base_seq_num st1 \<in> fst ` set (window st1)" .
  from send_burst_inv [OF inv sb] have i1: "tx_inv c st1" by simp
  from tx_inv_bounds [OF i1] have le1: "base_seq_num st1 \<le> tx_total c" by simp
  show ?thesis
  proof (cases ev)
    case (Recv ack t)
    with ev have "recv_ack c rem t ack st1 = Next st' acts2" by (simp add: tx_handle_def)
    from recv_ack_base_at [OF le1 _ this] at1 show ?thesis by simp
  next
    case (RecvTimeout t)
    with ev have "retransmit c t prog (map fst (window st1)) st1 = Next st' acts2"
      by (simp add: tx_handle_def)
    from retransmit_keys [OF this] at1 show ?thesis by simp
  qed
qed

lemma tx_stream_base_at:
  "tx_inv c st \<Longrightarrow>
   base_seq_num st \<in> fst ` set (window st) \<or> base_seq_num st = tx_total c \<or> evs \<noteq> [] \<Longrightarrow>
   tx_stream c evs st = Next st' acts \<Longrightarrow>
   base_seq_num st' \<in> fst ` set (window st') \<or> base_seq_num st' = tx_total c"
proof (induction evs arbitrary: st acts)
  case Nil
  then show ?case by simp
next
  case (Cons ev evs)
  obtain now send_time e where ev: "ev = (now, send_time, e)" by (rule prod_cases3)
  show ?case
  proof (cases "base_seq_num st < tx_total c")
    case False
    with Cons.prems(3) ev have "st' = st" by simp
    moreover from tx_inv_bounds [OF Cons.prems(1)] False have "base_seq_num st = tx_total c"
      by simp
    ultimately show ?thesis by simp
  next
    case True
    with Cons.prems(3) ev obtain st1 a1 a2 where
      it: "tx_iteration c now send_time e st = Next st1 a1" and
      rest: "tx_stream c evs st1 = Next st' a2"
      by (auto split: tx_outcome.splits)
    from tx_iteration_inv [OF Cons.prems(1) it] have i1: "tx_inv c st1" by simp
    from tx_iteration_base_at [OF Cons.prems(1) True it]
    have "base_seq_num st1 \<in> fst ` set (window st1) \<or> base_seq_num st1 = tx_total c \<or> evs \<noteq> []"
      by blast
    from Cons.IH [OF i1 this rest] show ?thesis .
  qed
qed

text \<open>An acknowledged packet stays acknowledged: every step of the loop puts into the
  window only sequence numbers from \<open>next_seq_num\<close> on.\<close>

lemma tx_acked_keys: "tx_acked k st \<longleftrightarrow> k < next_seq_num st \<and> k \<notin> fst ` set (window st)"
  by (simp add: tx_acked_def map_of_eq_None_iff)

lemma retransmit_next:
  "retransmit c now a ks st = Next st' acts \<Longrightarrow> next_seq_num st' = next_seq_num st"
proof (induction ks arbitrary: st st' acts)
  case Nil
  then show ?case by simp
next
  case (Cons k ks)
  show ?case
  proof (cases "map_of (window st) k")
    case None
    with Cons.prems show ?thesis by simp
  next
    case (Some e)
    obtain packet sent_time retries where e: "e = (packet, sent_time, retries)"
      by (rule prod_cases3)
    let ?due = "now - sent_time >
               dynamic_timeout (extreme_rtt_mode c) (tx_high_rtt_mode c) (effective_timeout c)
                 retries (remaining_time_percent c now) a"
    show ?thesis
    proof (cases ?due)
      case False
      with Cons.prems Some e have "retransmit c now a ks st = Next st' acts" by simp
      from Cons.IH [OF this] show ?thesis .
    next
      case True
      let ?st1 = "st\<lparr>window := AList.update k (packet, now, retries + 1) (window st)\<rparr>"
      from Cons.prems Some e True obtain acts1 where
        rec: "retransmit c now a ks ?st1 = Next st' acts1"
        by (auto split: if_splits tx_outcome.splits)
      from Cons.IH [OF rec] show ?thesis by simp
    qed
  qed
qed

lemma extra_sends_next:
  assumes "extra_sends c r now st = (st', acts, err)"
  shows "next_seq_num st \<le> next_seq_num st'"
proof (cases "r < 40 \<and> int (length (window st)) < effective_window c div 2")
  case True
  with assms have "send_extra c now (nat (min 3 (effective_window c - int (length (window st))))) st
      = (st', acts, err)"
    by (simp add: extra_sends_def Let_def)
  from send_extra_keys [OF this] show ?thesis by simp
next
  case False
  with assms have "st' = st" by (auto simp: extra_sends_def Let_def)
  then show ?thesis by simp
qed

lemma tx_acked_burst:
  assumes "tx_acked k st" and "send_burst c now burst n st = Inr (st', acts)"
  shows "tx_acked k st'"
proof -
  from assms(1) have lt: "k < next_seq_num st" and out: "k \<notin> fst ` set (window st)"
    by (simp_all add: tx_acked_keys)
  from send_burst_keys [OF assms(2)]
  have nx: "next_seq_num st \<le> next_seq_num st'"
    and new: "\<forall>j \<in> fst ` set (window st') - fst ` set (window st). next_seq_num st \<le> j"
    by simp_all
  have "k \<notin> fst ` set (window st')"
  proof
    assume "k \<in> fst ` set (window st')"
    with out have "k \<in> fst ` set (window st') - fst ` set (window st)" by simp
    from bspec [OF new this] lt show False by simp
  qed
  with lt nx show ?thesis by (simp add: tx_acked_keys)
qed

lemma tx_acked_recv:
  assumes "tx_acked k st" and r: "recv_ack c rem now ack st = Next st' acts"
  shows "tx_acked k st'"
proof (cases "unpack_I ack")
  case (Inl e)
  with r have "st' = st" by (simp add: recv_ack_malformed)
  with assms(1) show ?thesis by simp
next
  case (Inr j)
  show ?thesis
  proof (cases "map_of (window st) j = None")
    case True
    with r Inr have "st' = st" by (simp add: recv_ack_absent)
    with assms(1) show ?thesis by simp
  next
    case False
    from assms(1) have lt: "k < next_seq_num st" and out: "k \<notin> fst ` set (window st)"
      by (simp_all add: tx_acked_keys)
    from recv_ack_hit [OF Inr False r] obtain err where
      se: "extra_sends c rem now (ack_window c j st) = (st', acts, err)" by blast
    have n0: "next_seq_num (ack_window c j st) = next_seq_num st"
      unfolding ack_window_eq by simp
    have "fst ` set (window (ack_window c j st)) \<subseteq> fst ` set (window st)"
      unfolding ack_window_eq using set_delete_subset [of j "window st"] by auto
    with out have o0: "k \<notin> fst ` set (window (ack_window c j st))" by blast
    have "k \<notin> fst ` set (window st')"
    proof
      assume "k \<in> fst ` set (window st')"
      from bspec [OF extra_sends_keys [OF se] this] o0 n0 lt show False by simp
    qed
    with lt extra_sends_next [OF se] n0 show ?thesis by (simp add: tx_acked_keys)
  qed
qed

lemma tx_acked_retransmit:
  assumes "tx_acked k st" and "retransmit c now a ks st = Next st' acts"
  shows "tx_acked k st'"
  using assms(1) retransmit_keys [OF assms(2)] retransmit_next [OF assms(2)]
  by (simp add: tx_acked_keys)

text \<open>What an iteration that goes on is made of.\<close>

lemma tx_iteration_parts:
  assumes "tx_iteration c now send_time ev st = Next st' acts"
  shows "\<exists>st1 a1 a2.
           send_burst c send_time
             (max_burst (tx_high_rtt_mode c) (extreme_rtt_mode c)
                (remaining_time_percent c now) (actual_progress_percent c st)) 0 st = Inr (st1, a1)
           \<and> tx_handle c (remaining_time_percent c now) (actual_progress_percent c st) ev st1
               = Next st' a2
           \<and> acts = a1 @ a2"
  using assms by (auto simp: tx_iteration_def split: if_splits sum.splits tx_outcome.splits)

lemma tx_acked_iteration:
  assumes a: "tx_acked k st" and r: "tx_iteration c now send_time ev st = Next st' acts"
  shows "tx_acked k st'"
proof -
  from tx_iteration_parts [OF r] obtain st1 a1 a2 where
    sb: "send_burst c send_time
             (max_burst (tx_high_rtt_mode c) (extreme_rtt_mode c)
                (remaining_time_percent c now) (actual_progress_percent c st)) 0 st = Inr (st1, a1)"
    and h: "tx_handle c (remaining_time_percent c now) (actual_progress_percent c st) ev st1
               = Next st' a2"
    by blast
  from tx_acked_burst [OF a sb] have a1: "tx_acked k st1" .
  show ?thesis
  proof (cases ev)
    case (Recv ack t)
    with h have "recv_ack c (remaining_time_percent c now) t ack st1 = Next st' a2"
      by (simp add: tx_handle_def)
    from tx_acked_recv [OF a1 this] show ?thesis .
  next
    case (RecvTimeout t)
    with h have "retransmit c t (actual_progress_percent c st) (map fst (window st1)) st1
                 = Next st' a2"
      by (simp add: tx_handle_def)
    from tx_acked_retransmit [OF a1 this] show ?thesis .
  qed
qed

lemma tx_acked_stream:
  "tx_acked k st \<Longrightarrow> tx_stream c evs st = Next st' acts \<Longrightarrow> tx_acked k st'"
proof (induction evs arbitrary: st acts)
  case Nil
  then show ?case by simp
next
  case (Cons ev evs)
  obtain now send_time e where ev: "ev = (now, send_time, e)" by (rule prod_cases3)
  show ?case
  proof (cases "base_seq_num st < tx_total c")
    case False
    with Cons.prems ev show ?thesis by simp
  next
    case True
    with Cons.prems(2) ev obtain st1 a1 a2 where
      it: "tx_iteration c now send_time e st = Next st1 a1" and
      rest: "tx_stream c evs st1 = Next st' a2"
      by (auto split: tx_outcome.splits)
    from Cons.IH [OF tx_acked_iteration [OF Cons.prems(1) it] rest] show ?thesis .
  qed
qed

text \<open>After an iteration that received the acknowledgement of a packet sent by then, the
  packet is out of the window.\<close>

lemma tx_iteration_acks:
  assumes inv: "tx_inv c st"
      and r: "tx_iteration c now send_time (Recv ack t) st = Next st' acts"
      and u: "unpack_I ack = Inr k" and lt: "k < next_seq_num st'"
  shows "tx_acked k st'"
proof -
  from tx_iteration_parts [OF r] obtain st1 a1 a2 where
    sb: "send_burst c send_time
             (max_burst (tx_high_rtt_mode c) (extreme_rtt_mode c)
                (remaining_time_percent c now) (actual_progress_percent c st)) 0 st = Inr (st1, a1)"
    and h: "tx_handle c (remaining_time_percent c now) (actual_progress_percent c st) (Recv ack t) st1
               = Next st' a2"
    by blast
  from send_burst_inv [OF inv sb] have i1: "tx_inv c st1" by simp
  from h have ra: "recv_ack c (remaining_time_percent c now) t ack st1 = Next st' a2"
    by (simp add: tx_handle_def)
  have "map_of (window st') k = None"
  proof (cases "map_of (window st1) k = None")
    case True
    with ra u have "st' = st1" by (simp add: recv_ack_absent)
    with True show ?thesis by simp
  next
    case False
    from recv_ack_hit [OF u False ra] obtain err where
      se: "extra_sends c (remaining_time_percent c now) t (ack_window c k st1) = (st', a2, err)"
      by blast
    from False have "k \<in> fst ` set (window st1)" by (simp add: map_of_eq_None_iff)
    from tx_inv_keys [OF i1 this] have k1: "k < next_seq_num (ack_window c k st1)"
      unfolding ack_window_eq by simp
    have o1: "k \<notin> fst ` set (window (ack_window c k st1))"
      unfolding ack_window_eq by (simp add: delete_notin_dom)
    have "k \<notin> fst ` set (window st')"
    proof
      assume "k \<in> fst ` set (window st')"
      from bspec [OF extra_sends_keys [OF se] this] o1 k1 show False by simp
    qed
    then show ?thesis by (simp add: map_of_eq_None_iff)
  qed
  with lt show ?thesis by (simp add: tx_acked_def)
qed


subsection \<open>Runs of the sender, evaluated\<close>

lemmas tx_eval = tx_iteration_def tx_handle_def recv_ack_def extra_sends_def ack_window_def
  send_burst.simps advance_base.simps max_burst_def remaining_time_percent_def
  actual_progress_percent_def tx_total_def tx_high_rtt_mode_def extreme_rtt_mode_def
  effective_window_def WINDOW_SIZE_def MAX_TRANSFER_TIME_def py_index_def encode_data_def
  pack_II_def pack_I_def unpack_I_def be_int_def tx_init_def Let_def

lemma tx_run_example:
  "tx_stream \<lparr>chunks = replicate 20 ''x'', start_time = 0, initial_rtt = 0\<rparr>
     [(1, 1, Recv (map char_of [0,0,0,0::int]) 1)] tx_init
   = Next \<lparr>window = map (\<lambda>k. (k, map char_of [0,0,0,k,0,0,0,20] @ ''x'', 1, 0)) [1,2,3,4,5,6,7],
           next_seq_num = 8, base_seq_num = 1\<rparr>
       (map (\<lambda>k. SendTo (map char_of [0,0,0,k,0,0,0,20::int] @ ''x'')) [0,1,2,3,4,5,6,7])"
  by (simp add: tx_eval)

lemma rx_dup_example:
  "rx_run 2000 [Datagram (map char_of [0,0,0,0,0,0,0,2::int] @ ''a'') 1] (rx_init False 0)
   = Some (\<lparr>high_rtt_mode = False, received_seq_nums = {0}, received_packets = [],
             expected_seq = 1, total_packets = 2, transfer_complete = False,
             last_activity_time = 1, written = [(0, ''a'')]\<rparr>,
           [SendTo (map char_of [0,0,0,0::int])])"
  by (simp add: rx_eval)

lemma tx_iteration_first:
  "tx_iteration \<lparr>chunks = replicate 20 ''x'', start_time = 0, initial_rtt = 0\<rparr> 1 1
     (Recv (map char_of [0,0,0,0::int]) 1) tx_init
   = Next \<lparr>window = map (\<lambda>k. (k, map char_of [0,0,0,k,0,0,0,20] @ ''x'', 1, 0)) [1,2,3,4,5,6,7],
           next_seq_num = 8, base_seq_num = 1\<rparr>
       (map (\<lambda>k. SendTo (map char_of [0,0,0,k,0,0,0,20::int] @ ''x'')) [0,1,2,3,4,5,6,7])"
  by (simp add: tx_eval)

lemma tx_iteration_second:
  "tx_iteration \<lparr>chunks = replicate 20 ''x'', start_time = 0, initial_rtt = 0\<rparr> 2 2
     (Recv (map char_of [0,0,0,0::int]) 2)
     \<lparr>window = map (\<lambda>k. (k, map char_of [0,0,0,k,0,0,0,20] @ ''x'', 1, 0)) [1,2,3,4,5,6,7],
           next_seq_num = 8, base_seq_num = 1\<rparr>
   = Next \<lparr>window = map (\<lambda>k. (k, map char_of [0,0,0,k,0,0,0,20] @ ''x'', 1, 0)) [1,2,3,4,5,6,7]
                  @ map (\<lambda>k. (k, map char_of [0,0,0,k,0,0,0,20] @ ''x'', 2, 0))
                      [8,9,10,11,12,13,14,15],
           next_seq_num = 16, base_seq_num = 1\<rparr>
       (map (\<lambda>k. SendTo (map char_of [0,0,0,k,0,0,0,20::int] @ ''x'')) [8,9,10,11,12,13,14,15])"
  by (simp add: tx_eval)

lemma tx_early_ack:
  "tx_iteration \<lparr>chunks = replicate 40 ''x'', start_time = 0, initial_rtt = 0\<rparr> 1 1
     (Recv (map char_of [0,0,0,8::int]) 1) tx_init
   = Next \<lparr>window = map (\<lambda>k. (k, map char_of [0,0,0,k,0,0,0,40] @ ''x'', 1, 0)) [0,1,2,3,4,5,6,7],
           next_seq_num = 8, base_seq_num = 0\<rparr>
       (map (\<lambda>k. SendTo (map char_of [0,0,0,k,0,0,0,40::int] @ ''x'')) [0,1,2,3,4,5,6,7])"
  by (simp add: tx_eval)

lemma tx_early_ack_again:
  "tx_iteration \<lparr>chunks = replicate 40 ''x'', start_time = 0, initial_rtt = 0\<rparr> 2 2
     (Recv (map char_of [0,0,0,8::int]) 2)
     \<lparr>window = map (\<lambda>k. (k, map char_of [0,0,0,k,0,0,0,40] @ ''x'', 1, 0)) [0,1,2,3,4,5,6,7],
           next_seq_num = 8, base_seq_num = 0\<rparr>
   = Next \<lparr>window = map (\<lambda>k. (k, map char_of [0,0,0,k,0,0,0,40] @ ''x'', 1, 0)) [0,1,2,3,4,5,6,7]
                  @ map (\<lambda>k. (k, map char_of [0,0,0,k,0,0,0,40] @ ''x'', 2, 0))
                      [9,10,11,12,13,14,15],
           next_seq_num = 16, base_seq_num = 0\<rparr>
       (map (\<lambda>k. SendTo (map char_of [0,0,0,k,0,0,0,40::int] @ ''x'')) [8,9,10,11,12,13,14,15])"
  by (simp add: tx_eval)

lemma tx_early_burst:
  "send_burst \<lparr>chunks = replicate 40 ''x'', start_time = 0, initial_rtt = 0\<rparr> 2 8 0
     \<lparr>window = map (\<lambda>k. (k, map char_of [0,0,0,k,0,0,0,40] @ ''x'', 1, 0)) [0,1,2,3,4,5,6,7],
           next_seq_num = 8, base_seq_num = 0\<rparr>
   = Inr (\<lparr>window = map (\<lambda>k. (k, map char_of [0,0,0,k,0,0,0,40] @ ''x'', 1, 0)) [0,1,2,3,4,5,6,7]
                  @ map (\<lambda>k. (k, map char_of [0,0,0,k,0,0,0,40] @ ''x'', 2, 0))
                      [8,9,10,11,12,13,14,15],
           next_seq_num = 16, base_seq_num = 0\<rparr>,
       map (\<lambda>k. SendTo (map char_of [0,0,0,k,0,0,0,40::int] @ ''x'')) [8,9,10,11,12,13,14,15])"
  by (simp add: tx_eval)

lemma rx_first_of_five:
  "rx_run 0 [Datagram (map char_of [0,0,0,0,0,0,0,5::int] @ ''a'') 1] (rx_init False 0)
   = Some (\<lparr>high_rtt_mode = False, received_seq_nums = {0}, received_packets = [],
             expected_seq = 1, total_packets = 5, transfer_complete = False,
             last_activity_time = 1, written = [(0, ''a'')]\<rparr>,
           [SendTo (map char_of [0,0,0,0::int])])"
  by (simp add: rx_eval)


subsection \<open>Round trip of a data packet\<close>

text \<open>
  Claim C6. For every sequence number \<open>s\<close> and total \<open>N\<close> in the unsigned 32-bit range
  and every payload \<open>p\<close> of at most 1024 bytes, the sender's encoding succeeds and the
  receiver's decoding of it returns exactly \<open>(s, N, p)\<close>.
\<close>

theorem decode_encode_data:
  assumes "0 \<le> s" "s < 2 ^ 32" "0 \<le> N" "N < 2 ^ 32" "length p \<le> 1024"
  shows "\<exists>d. encode_data s N p = Inr d \<and> decode_data d = Inr (Decoded s N p)"
proof -
  from assms obtain h where h: "pack_II s N = Inr h"
    by (auto simp: pack_II_def pack_I_def)
  have len: "length h = 8"
    using h by (rule pack_II_length)
  have "encode_data s N p = Inr (h @ p)"
    by (simp add: encode_data_def h)
  moreover have "decode_data (h @ p) = Inr (Decoded s N p)"
    using unpack_II_pack_II [OF h] len by (simp add: decode_data_def header_size_def)
  ultimately show ?thesis by blast
qed

theorem decode_encode_data_witness:
  "encode_data 258 1024 ''hi'' = Inr (map char_of [0, 0, 1, 2, 0, 0, 4, 0 :: int] @ ''hi'')
   \<and> (\<exists>d. encode_data 258 1024 ''hi'' = Inr d \<and> decode_data d = Inr (Decoded 258 1024 ''hi''))"
proof -
  have e: "encode_data 258 1024 ''hi'' = Inr (map char_of [0, 0, 1, 2, 0, 0, 4, 0 :: int] @ ''hi'')"
    by (simp add: encode_data_def pack_II_def pack_I_def)
  show ?thesis
    using e decode_encode_data [of 258 1024 "''hi''"] by simp
qed

subsection \<open>Writes in order, each once\<close>

text \<open>
  Claim C5, as the code has it. Take any run of the receiver's loop from its initial state
  over events \<open>es1 @ es2\<close>, ending in state \<open>s2\<close>, and let \<open>s1\<close> be the state after \<open>es1\<close>.
  Then \<open>expected_seq\<close> has not decreased from \<open>s1\<close> to \<open>s2\<close> and the file has only been
  appended to; the writes made are exactly those for the sequence numbers
  \<open>0, \<dots>, expected_seq - 1\<close>, one each and in this order; every payload written was
  carried by a received datagram with that sequence number; \<open>expected_seq\<close> never
  exceeds \<open>total_packets\<close>; and \<open>expected_seq\<close> equals \<open>total_packets\<close> as soon as every
  sequence number below \<open>total_packets\<close> has been received. (The loop itself does not
  wait for that before it completes: see the counterexample below.)
\<close>

theorem receiver_writes_in_order:
  assumes "rx_run file_size (es1 @ es2) (rx_init h t0) = Some (s2, a2)"
  shows "\<exists>s1 a1. rx_run file_size es1 (rx_init h t0) = Some (s1, a1)
           \<and> expected_seq s1 \<le> expected_seq s2
           \<and> (\<exists>r. written s2 = written s1 @ r)
           \<and> map fst (written s2) = [0..expected_seq s2 - 1]
           \<and> set (written s2) \<subseteq> carried (es1 @ es2)
           \<and> expected_seq s2 \<le> total_packets s2
           \<and> ({0..<total_packets s2} \<subseteq> received_seq_nums s2
                \<longrightarrow> expected_seq s2 = total_packets s2)"
proof -
  from rx_run_append [OF assms] obtain s1 a1 a' where
    r1: "rx_run file_size es1 (rx_init h t0) = Some (s1, a1)" and
    r2: "rx_run file_size es2 s1 = Some (s2, a')"
    by blast
  from rx_run_grows [OF r2] have g: "expected_seq s1 \<le> expected_seq s2"
    "\<exists>r. written s2 = written s1 @ r"
    by (simp_all add: rx_grows_def)
  from rx_run_inv [OF rx_inv_init assms] have inv: "rx_inv s2" .
  from rx_run_prov [OF rx_prov_init subset_refl assms]
  have p: "set (written s2) \<subseteq> carried (es1 @ es2)" by (simp add: rx_prov_def)
  show ?thesis
    using r1 g rx_inv_written [OF inv] p rx_inv_bounds [OF inv] rx_inv_all_delivered [OF inv]
    by blast
qed

theorem receiver_writes_in_order_witness:
  "rx_run 2000 ([Datagram (map char_of [0,0,0,1,0,0,0,2::int] @ ''b'') 1] @
                [Datagram (map char_of [0,0,0,0,0,0,0,2::int] @ ''a'') 2,
                 Datagram (map char_of [0,0,0,2,0,0,0,2::int]) 3]) (rx_init False 0)
   = Some (\<lparr>high_rtt_mode = False, received_seq_nums = {0, 1}, received_packets = [],
             expected_seq = 2, total_packets = 2, transfer_complete = True,
             last_activity_time = 3, written = [(0, ''a''), (1, ''b'')]\<rparr>,
           [SendTo (map char_of [0,0,0,1::int]), SendTo (map char_of [0,0,0,0::int])] @
           concat (replicate 5 [SendTo (map char_of [0,0,0,2::int]), Sleep (1 / 100)]))
   \<and> (\<exists>s1 a1. rx_run 2000 [Datagram (map char_of [0,0,0,1,0,0,0,2::int] @ ''b'') 1]
                  (rx_init False 0) = Some (s1, a1)
         \<and> expected_seq s1 \<le> 2
         \<and> (\<exists>r. [(0, ''a''), (1, ''b'')] = written s1 @ r))"
proof -
  note run = rx_run_example
  from receiver_writes_in_order [OF run] obtain s1 a1 where
    "rx_run 2000 [Datagram (map char_of [0,0,0,1,0,0,0,2::int] @ ''b'') 1] (rx_init False 0)
       = Some (s1, a1)"
    "expected_seq s1 \<le> 2" "\<exists>r. [(0, ''a''), (1, ''b'')] = written s1 @ r"
    by auto
  with run show ?thesis by blast
qed

text \<open>
  The claim as stated also says that \<open>expected_seq\<close> ends at \<open>total_packets\<close> on success.
  The loop completes on the termination marker whatever has been received: after a header
  announcing an empty file without a digest, the single datagram \<open>{seq = 5, total = 5}\<close>
  completes the transfer and the size check succeeds, with \<open>expected_seq = 0\<close> and
  \<open>total_packets = 5\<close>.
\<close>

theorem receiver_done_before_all_received:
  "transfer_complete (fst (the (rx_run 0 [Datagram (map char_of [0,0,0,5,0,0,0,5::int]) 1]
                                   (rx_init False 0))))
   \<and> size_verified 0 (fst (the (rx_run 0 [Datagram (map char_of [0,0,0,5,0,0,0,5::int]) 1]
                                   (rx_init False 0))))
   \<and> expected_seq (fst (the (rx_run 0 [Datagram (map char_of [0,0,0,5,0,0,0,5::int]) 1]
                                   (rx_init False 0)))) = 0
   \<and> total_packets (fst (the (rx_run 0 [Datagram (map char_of [0,0,0,5,0,0,0,5::int]) 1]
                                   (rx_init False 0)))) = 5"
  unfolding rx_run_marker_only by (simp add: size_verified_def)

subsection \<open>The total carried by a data packet\<close>

text \<open>
  Claim C7, as the code has it. For every received datagram that is decoded as a data
  packet \<open>(q, tot, c)\<close>: when \<open>tot\<close> is 0 or greater than 100 000, the receiver goes on
  with the expectation \<open>E = \<lceil>size / 1024\<rceil>\<close> in its place if and only if \<open>E > 0\<close> (there
  is no upper limit on \<open>E\<close> here), and otherwise drops the packet; a total within the
  limits is kept. The total \<open>pt\<close> that comes out of this check binds \<open>total_packets\<close> when
  that is still 0, and \<open>E\<close> is taken instead when \<open>|pt - E| > 0.5 \<sqdot> E\<close> and \<open>E\<close> is in the
  open interval \<open>(0, 100 000)\<close>; once bound, \<open>total_packets\<close> does not change.
\<close>

theorem total_sanitized_and_bound:
  assumes "data \<noteq> ''RTT_PROBE''" and "decode_data data = Inr (Decoded q tot c)"
  shows "(if tot = 0 \<or> tot > 100000
          then (if expected_packets fs > 0
                then rx_datagram fs data s = rx_packet fs q (expected_packets fs) c s
                else rx_datagram fs data s = (s, []))
          else rx_datagram fs data s = rx_packet fs q tot c s)
         \<and> total_packets (fst (rx_packet fs q pt c s)) =
             (if total_packets s = 0
              then (if 2 * \<bar>pt - expected_packets fs\<bar> > expected_packets fs
                       \<and> 0 < expected_packets fs \<and> expected_packets fs < 100000
                    then expected_packets fs else pt)
              else total_packets s)"
proof -
  note rx_packet_total [of fs q pt c s]
  then show ?thesis
    using assms by (simp add: rx_datagram_def sanitize_total_def MAX_REASONABLE_PACKETS_def)
qed

theorem total_sanitized_and_bound_witness:
  "rx_datagram 102400000 (map char_of [0,0,0,0,0,0,0,0::int] @ ''x'') (rx_init False 0)
     = rx_packet 102400000 0 (expected_packets 102400000) ''x'' (rx_init False 0)
   \<and> total_packets (fst (rx_packet 102400000 0 7 ''x'' (rx_init False 0))) = 7"
proof -
  have h1: "map char_of [0,0,0,0,0,0,0,0::int] @ ''x'' \<noteq> ''RTT_PROBE''"
    by simp
  have h2: "decode_data (map char_of [0,0,0,0,0,0,0,0::int] @ ''x'') = Inr (Decoded 0 0 ''x'')"
    by (simp add: decode_data_def header_size_def unpack_II_def be_int_def)
  have e: "expected_packets 102400000 = 100000"
    by (simp add: expected_packets_def)
  have t: "total_packets (rx_init False 0) = 0"
    by (simp add: rx_init_def)
  from total_sanitized_and_bound [OF h1 h2, of 102400000 "rx_init False 0" 7]
  show ?thesis
    unfolding e t by simp
qed

text \<open>
  The claim as stated lets the substitution happen only for \<open>E\<close> in \<open>(0, 100 000)\<close>. With a
  file of 102 400 000 bytes, \<open>E = 100 000\<close> is outside that interval, and a first packet
  \<open>{seq = 0, total = 0}\<close> is still accepted with \<open>E\<close> as its total: it is written and
  acknowledged, and \<open>total_packets\<close> becomes 100 000.
\<close>

theorem total_substituted_beyond_limit:
  "rx_datagram 102400000 (map char_of [0,0,0,0,0,0,0,0::int] @ ''x'') (rx_init False 0)
   = (\<lparr>high_rtt_mode = False, received_seq_nums = {0}, received_packets = [],
             expected_seq = 1, total_packets = 100000, transfer_complete = False,
             last_activity_time = 0, written = [(0, ''x'')]\<rparr>,
      [SendTo (map char_of [0,0,0,0::int])])"
  by (simp add: rx_eval)

subsection \<open>The acknowledgement of the termination marker\<close>

text \<open>
  Claim C3, as the code has it. When the receiver recognises the termination marker (the
  packet's sequence number and its total both equal \<open>total_packets\<close>, after the total was
  checked and bound), it sends the acknowledgement of \<open>total_packets\<close> exactly \<open>R\<close> times,
  pausing \<open>D\<close> after each, and sets \<open>transfer_complete\<close>, which ends the loop. The receiver
  knows two modes only: \<open>(R, D)\<close> is (5, 10 ms) when its \<open>high_rtt_mode\<close> is not set and
  (15, 50 ms) when it is. The marker test of line 132 is only reached when lines 119--129
  ran through, that is when \<open>bind_total\<close> returned the value \<open>q\<close> of \<open>total_packets\<close>: for
  a first packet and an expectation too large for a float, line 124 raises and the packet
  is dropped, whatever it carries (\<open>overflow_drops_first_packet\<close>).
\<close>

theorem termination_ack_repeats:
  assumes "data \<noteq> ''RTT_PROBE''" and "decode_data data = Inr (Decoded q tot c)"
      and "sanitize_total fs tot = Some pt"
      and "bind_total fs pt (total_packets s) = Inr q" and "pt = q"
  shows "\<exists>a. pack_I q = Inr a \<and>
           rx_datagram fs data s =
             (s\<lparr>total_packets := q, transfer_complete := True\<rparr>,
              concat (replicate (if high_rtt_mode s then 15 else 5)
                        [SendTo a, Sleep (if high_rtt_mode s then 50 / 1000 else 10 / 1000)]))"
proof -
  from decode_data_bounds [OF assms(2)] obtain a where a: "pack_I q = Inr a"
    by (auto simp: pack_I_def)
  have "rx_datagram fs data s = rx_packet fs q pt c s"
    using assms(1-3) by (simp add: rx_datagram_def)
  also have "\<dots> = rx_dispatch q pt c (s\<lparr>total_packets := q\<rparr>)"
    using assms(4) by (simp add: rx_packet_def)
  also have "\<dots> = (s\<lparr>total_packets := q, transfer_complete := True\<rparr>,
              concat (replicate (if high_rtt_mode s then 15 else 5)
                        [SendTo a, Sleep (if high_rtt_mode s then 50 / 1000 else 10 / 1000)]))"
    using assms(5) a by (subst rx_dispatch_fin) simp_all
  finally show ?thesis using a by blast
qed

theorem termination_ack_repeats_witness:
  "\<exists>a. pack_I 1 = Inr a \<and>
        rx_datagram 1 (map char_of [0,0,0,1,0,0,0,1::int]) (rx_init False 0) =
          ((rx_init False 0)\<lparr>total_packets := 1, transfer_complete := True\<rparr>,
           concat (replicate 5 [SendTo a, Sleep (10 / 1000)]))"
proof -
  have h1: "map char_of [0,0,0,1,0,0,0,1::int] \<noteq> ''RTT_PROBE''"
    by simp
  have h2: "decode_data (map char_of [0,0,0,1,0,0,0,1::int]) = Inr (Decoded 1 1 [])"
    by (simp add: decode_data_def header_size_def unpack_II_def be_int_def)
  have h3: "sanitize_total 1 1 = Some 1"
    by (simp add: sanitize_total_def MAX_REASONABLE_PACKETS_def)
  have h4: "bind_total 1 1 (total_packets (rx_init False 0)) = Inr 1"
    by (simp add: bind_total_int rx_init_def expected_packets_def float_overflows_def)
  have m: "high_rtt_mode (rx_init False 0) = False"
    by (simp add: rx_init_def)
  from termination_ack_repeats [OF h1 h2 h3 h4 refl]
  show ?thesis
    unfolding m by simp
qed

text \<open>
  The claim as stated gives the receiver the sender's three pairs (3, 10 ms), (10, 20 ms)
  and (20, 50 ms). In standard mode the receiver sends five acknowledgements, not three,
  and in its high-RTT mode fifteen, 50 ms apart.
\<close>

theorem termination_ack_counts:
  "snd (rx_datagram 1 (map char_of [0,0,0,1,0,0,0,1::int]) (rx_init False 0))
     = concat (replicate 5 [SendTo (map char_of [0,0,0,1::int]), Sleep (10 / 1000)])
   \<and> snd (rx_datagram 1 (map char_of [0,0,0,1,0,0,0,1::int]) (rx_init False 0))
     \<noteq> concat (replicate 3 [SendTo (map char_of [0,0,0,1::int]), Sleep (10 / 1000)])
   \<and> snd (rx_datagram 1 (map char_of [0,0,0,1,0,0,0,1::int]) (rx_init True 0))
     = concat (replicate 15 [SendTo (map char_of [0,0,0,1::int]), Sleep (50 / 1000)])"
  by (simp add: rx_eval numeral_eq_Suc)

subsection \<open>A connection reset by the client\<close>

text \<open>
  Claim C9, as the code has it. On a \<open>socket.error\<close> whose \<open>winerror\<close> is 10054 the
  receiver treats the transfer as complete if and only if \<open>total_packets > 0\<close> and
  \<open>expected_seq\<close> is strictly greater than \<open>0.9 \<sqdot> total_packets\<close>; otherwise it goes on
  waiting, with nothing changed. There is one exception: a positive \<open>total_packets\<close> of
  \<open>2^1024 - 2^970\<close> or more cannot be converted to a float, the product of line 217 raises
  \<open>OverflowError\<close> inside the handler, and \<open>receive_file\<close> ends there, neither completing
  nor waiting. The loop reaches such a state when the header announces a size of that
  order (\<open>rx_run_overflow_reset\<close>).
\<close>

theorem peer_reset:
  "rx_step fs (SocketError (Some 10054)) s =
     (if total_packets s > 0 \<and> float_overflows (total_packets s) then None
      else Some (if total_packets s > 0 \<and> 10 * expected_seq s > 9 * total_packets s
                 then s\<lparr>transfer_complete := True\<rparr> else s, []))"
proof -
  have "(of_int (expected_seq s) > (of_int (total_packets s) * (9 / 10) :: rat))
        \<longleftrightarrow> (of_int (9 * total_packets s) :: rat) < of_int (10 * expected_seq s)"
    by (simp add: field_simps)
  also have "\<dots> \<longleftrightarrow> 9 * total_packets s < 10 * expected_seq s"
    by (rule of_int_less_iff)
  finally show ?thesis by (simp add: int_times_float_def)
qed

text \<open>
  The claim as stated has \<open>expected_seq \<ge> 0.9 \<sqdot> total_packets\<close>. After nine packets of
  ten, \<open>expected_seq = 9 = 0.9 \<sqdot> 10\<close>, and the reset does not complete the transfer.
\<close>

theorem peer_reset_at_nine_of_ten:
  "total_packets (fst (the (rx_run 10240
       (map (\<lambda>k. Datagram (map char_of [0,0,0,k,0,0,0,10::int]) 1) [0,1,2,3,4,5,6,7,8]
        @ [SocketError (Some 10054)]) (rx_init False 0)))) = 10
   \<and> expected_seq (fst (the (rx_run 10240
       (map (\<lambda>k. Datagram (map char_of [0,0,0,k,0,0,0,10::int]) 1) [0,1,2,3,4,5,6,7,8]
        @ [SocketError (Some 10054)]) (rx_init False 0)))) = 9
   \<and> (of_int 9 :: rat) \<ge> 0.9 * of_int 10
   \<and> \<not> transfer_complete (fst (the (rx_run 10240
       (map (\<lambda>k. Datagram (map char_of [0,0,0,k,0,0,0,10::int]) 1) [0,1,2,3,4,5,6,7,8]
        @ [SocketError (Some 10054)]) (rx_init False 0))))"
  unfolding rx_run_nine_of_ten by simp

subsection \<open>A file of zero bytes\<close>

text \<open>
  Claim C1 says that a zero-byte file is transferred with the header, the probes and the
  termination handshake only. The sender does its part: it reads no chunk, so
  \<open>total_packets = 0\<close>, its streaming loop sends nothing, and its termination packet is
  \<open>{seq = 0, total = 0}\<close>, eight zero bytes. The receiver, whose expectation for a file
  of 0 bytes is 0 packets, takes a total of 0 for invalid and ignores the packet: in
  every state it sends no acknowledgement and does not complete.
\<close>

theorem zero_byte_marker_ignored:
  "read_chunks [] = []
   \<and> tx_stream \<lparr>chunks = read_chunks [], start_time = t0, initial_rtt = r\<rparr> evs tx_init
       = Next tx_init []
   \<and> term_packet \<lparr>chunks = read_chunks [], start_time = t0, initial_rtt = r\<rparr>
       = Inr (map char_of [0,0,0,0,0,0,0,0::int])
   \<and> rx_step 0 (Datagram (map char_of [0,0,0,0,0,0,0,0::int]) t) s
       = Some (s\<lparr>last_activity_time := t\<rparr>, [])"
proof -
  have "tx_stream \<lparr>chunks = read_chunks [], start_time = t0, initial_rtt = r\<rparr> evs tx_init
          = Next tx_init []"
    by (cases evs) (auto simp: read_chunks.simps tx_total_def tx_init_def)
  then show ?thesis
    by (simp add: read_chunks.simps term_packet_def tx_total_def pack_II_def pack_I_def
        rx_datagram_def decode_data_def header_size_def unpack_II_def be_int_def
        sanitize_total_def expected_packets_def)
qed

subsection \<open>The sender's window\<close>

text \<open>
  Claim C2. In every state the sender's streaming loop reaches from its initial state,
  after every event, \<open>base \<le> next \<le> N\<close> holds; every sequence number in the window
  lies between \<open>base\<close> and \<open>next\<close>; and \<open>base\<close> is itself in the window, hence the
  smallest sequence number still in it, unless the window is empty and \<open>base = next\<close>.
  Once the loop has taken an event, \<open>base\<close> stands at the smallest sequence number still
  in the window or at \<open>N\<close>, and it never passes \<open>next\<close>. (A burst of at least eight
  packets fills the window before each receive, so an acknowledgement cannot empty it
  while unsent chunks remain.)
\<close>

theorem sender_window_invariant:
  assumes "tx_stream c evs tx_init = Next st acts"
  shows "0 \<le> base_seq_num st \<and> base_seq_num st \<le> next_seq_num st
         \<and> next_seq_num st \<le> tx_total c
         \<and> (\<forall>k \<in> fst ` set (window st). base_seq_num st \<le> k \<and> k < next_seq_num st)
         \<and> (base_seq_num st \<in> fst ` set (window st) \<or> base_seq_num st = next_seq_num st)
         \<and> (evs \<noteq> [] \<longrightarrow>
              base_seq_num st \<in> fst ` set (window st) \<or> base_seq_num st = tx_total c)"
proof -
  from tx_stream_inv [OF tx_inv_init assms] have "tx_inv c st" by simp
  moreover have "base_seq_num st \<in> fst ` set (window st) \<or> base_seq_num st = tx_total c"
    if "evs \<noteq> []"
    using tx_inv_init _ assms by (rule tx_stream_base_at) (simp add: that)
  ultimately show ?thesis unfolding tx_inv_def by blast
qed

theorem sender_window_invariant_witness:
  "\<exists>st acts.
     tx_stream \<lparr>chunks = replicate 20 ''x'', start_time = 0, initial_rtt = 0\<rparr>
       [(1, 1, Recv (map char_of [0,0,0,0::int]) 1)] tx_init = Next st acts
     \<and> base_seq_num st = 1 \<and> next_seq_num st = 8
     \<and> base_seq_num st \<le> next_seq_num st
     \<and> next_seq_num st \<le> tx_total \<lparr>chunks = replicate 20 ''x'', start_time = 0, initial_rtt = 0\<rparr>
     \<and> (base_seq_num st \<in> fst ` set (window st)
          \<or> base_seq_num st = tx_total \<lparr>chunks = replicate 20 ''x'', start_time = 0, initial_rtt = 0\<rparr>)"
proof -
  note run = tx_run_example
  from sender_window_invariant [OF run] run show ?thesis
    by (intro exI conjI) (assumption | simp)+
qed

subsection \<open>Duplicates\<close>

text \<open>
  Claim C8, as the code has it. Receiver: in every state its loop reaches, every data
  packet (a datagram other than \<open>RTT_PROBE\<close> of at least eight bytes) whose total passes
  the check of lines 109--116 (it is within 1 and 100 000, or the header announced a file
  that is not empty) and whose sequence number is already in \<open>received_seq_nums\<close> is
  answered by one acknowledgement of that sequence number and changes nothing: not the
  file, nor \<open>expected_seq\<close>, \<open>received_seq_nums\<close> or the buffer. Sender: when an iteration
  of the streaming loop has received an acknowledgement of a packet \<open>k\<close> that had been
  sent by then, then in every later iteration that receives an acknowledgement of \<open>k\<close>
  the state and the datagrams sent are those of the iteration's burst alone: processing
  the acknowledgement again leaves the window and \<open>base\<close> as they are and sends nothing.
  From iteration to iteration \<open>base\<close> never decreases.
\<close>

theorem duplicates_idempotent:
  assumes "rx_run fs es (rx_init h t0) = Some (s, acts)"
      and "0 < expected_packets fs \<or> (0 < tot \<and> tot \<le> 100000)"
      and "data \<noteq> ''RTT_PROBE''"
      and "decode_data data = Inr (Decoded q tot ch)"
      and "q \<in> received_seq_nums s"
      and "tx_stream c evs tx_init = Next st0 a0"
      and "tx_iteration c t1 u1 (Recv ack n1) st0 = Next st1 a1"
      and "unpack_I ack = Inr k" and "k < next_seq_num st1"
      and "tx_stream c evs' st1 = Next st2 a2"
      and "tx_iteration c t2 u2 (Recv ack n2) st2 = Next st3 a3"
  shows "(\<exists>a. pack_I q = Inr a \<and> rx_datagram fs data s = (s, [SendTo a]))
         \<and> send_burst c u2
             (max_burst (tx_high_rtt_mode c) (extreme_rtt_mode c)
                (remaining_time_percent c t2) (actual_progress_percent c st2)) 0 st2
           = Inr (st3, a3)
         \<and> recv_ack c rem n ack st3 = Next st3 []
         \<and> base_seq_num st0 \<le> base_seq_num st1 \<and> base_seq_num st1 \<le> base_seq_num st2
         \<and> base_seq_num st2 \<le> base_seq_num st3"
proof -
  have inv: "rx_inv s" using rx_inv_init assms(1) by (rule rx_run_inv)
  from rx_inv_delivered [OF inv] assms(5)
  have "q \<in> {0..<expected_seq s} \<or> q \<in> fst ` set (received_packets s)" by simp
  then have ql: "q < total_packets s"
  proof
    assume "q \<in> {0..<expected_seq s}"
    with rx_inv_bounds [OF inv] show ?thesis by simp
  next
    assume "q \<in> fst ` set (received_packets s)"
    from rx_inv_keys [OF inv this] show ?thesis by simp
  qed
  from decode_data_bounds [OF assms(4)] have q0: "0 \<le> q" and q1: "q < 2 ^ 32" by simp_all
  from q0 ql have tp: "total_packets s \<noteq> 0" by simp
  from q0 q1 obtain a where a: "pack_I q = Inr a" by (auto simp: pack_I_def)
  obtain pt where pt: "sanitize_total fs tot = Some pt"
    using assms(2) by (cases "sanitize_total fs tot") (auto simp: sanitize_total_def
        MAX_REASONABLE_PACKETS_def split: if_splits)
  have "rx_datagram fs data s = rx_packet fs q pt ch s"
    using assms(3,4) pt by (simp add: rx_datagram_def)
  also have "\<dots> = rx_dispatch q pt ch s"
    using tp by (simp add: rx_packet_def bind_total_keep)
  also have "\<dots> = (s, send_ack q)"
  proof -
    from ql have nf: "\<not> (q = total_packets s \<and> pt = total_packets s)" by simp
    show ?thesis unfolding rx_dispatch_not_fin [OF nf] using ql assms(5) by simp
  qed
  also have "send_ack q = [SendTo a]" by (simp add: send_ack_def a)
  finally have rx: "\<exists>a. pack_I q = Inr a \<and> rx_datagram fs data s = (s, [SendTo a])"
    using a by blast
  from tx_stream_inv [OF tx_inv_init assms(6)] have i0: "tx_inv c st0" by simp
  from tx_iteration_inv [OF i0 assms(7)]
  have i1: "tx_inv c st1" and b1: "base_seq_num st0 \<le> base_seq_num st1" by simp_all
  from tx_stream_inv [OF i1 assms(10)]
  have i2: "tx_inv c st2" and b2: "base_seq_num st1 \<le> base_seq_num st2" by simp_all
  from tx_iteration_inv [OF i2 assms(11)]
  have b3: "base_seq_num st2 \<le> base_seq_num st3" by simp
  from tx_iteration_acks [OF i0 assms(7,8,9)] have "tx_acked k st1" .
  from tx_acked_stream [OF this assms(10)] have k2: "tx_acked k st2" .
  from tx_iteration_parts [OF assms(11)] obtain stb ab ah where
    sb: "send_burst c u2
             (max_burst (tx_high_rtt_mode c) (extreme_rtt_mode c)
                (remaining_time_percent c t2) (actual_progress_percent c st2)) 0 st2
           = Inr (stb, ab)"
    and hd: "tx_handle c (remaining_time_percent c t2) (actual_progress_percent c st2)
               (Recv ack n2) stb = Next st3 ah"
    and a3: "a3 = ab @ ah"
    by blast
  from tx_acked_burst [OF k2 sb] have "map_of (window stb) k = None"
    by (simp add: tx_acked_def)
  from recv_ack_absent [OF assms(8) this]
  have ab: "recv_ack c r' n' ack stb = Next stb []" for r' n' .
  from hd ab have "st3 = stb" and "ah = []" by (simp_all add: tx_handle_def)
  with sb a3 ab rx b1 b2 b3 show ?thesis by simp
qed

theorem duplicates_idempotent_witness:
  "(\<exists>a. pack_I 0 = Inr a \<and>
        rx_datagram 2000 (map char_of [0,0,0,0,0,0,0,2::int] @ ''a'')
          \<lparr>high_rtt_mode = False, received_seq_nums = {0}, received_packets = [],
             expected_seq = 1, total_packets = 2, transfer_complete = False,
             last_activity_time = 1, written = [(0, ''a'')]\<rparr>
        = (\<lparr>high_rtt_mode = False, received_seq_nums = {0}, received_packets = [],
             expected_seq = 1, total_packets = 2, transfer_complete = False,
             last_activity_time = 1, written = [(0, ''a'')]\<rparr>, [SendTo a]))
   \<and> recv_ack \<lparr>chunks = replicate 20 ''x'', start_time = 0, initial_rtt = 0\<rparr> 50 3
        (map char_of [0,0,0,0::int])
        \<lparr>window = map (\<lambda>k. (k, map char_of [0,0,0,k,0,0,0,20] @ ''x'', 1, 0)) [1,2,3,4,5,6,7]
                  @ map (\<lambda>k. (k, map char_of [0,0,0,k,0,0,0,20] @ ''x'', 2, 0))
                      [8,9,10,11,12,13,14,15],
           next_seq_num = 16, base_seq_num = 1\<rparr>
      = Next \<lparr>window = map (\<lambda>k. (k, map char_of [0,0,0,k,0,0,0,20] @ ''x'', 1, 0)) [1,2,3,4,5,6,7]
                  @ map (\<lambda>k. (k, map char_of [0,0,0,k,0,0,0,20] @ ''x'', 2, 0))
                      [8,9,10,11,12,13,14,15],
           next_seq_num = 16, base_seq_num = 1\<rparr> []"
proof -
  have h2: "0 < expected_packets 2000 \<or> (0 < (2::int) \<and> (2::int) \<le> 100000)"
    by (simp add: expected_packets_def)
  have h3: "map char_of [0,0,0,0,0,0,0,2::int] @ ''a'' \<noteq> ''RTT_PROBE''"
    by simp
  have h4: "decode_data (map char_of [0,0,0,0,0,0,0,2::int] @ ''a'') = Inr (Decoded 0 2 ''a'')"
    by (simp add: decode_data_def header_size_def unpack_II_def be_int_def)
  have h5: "0 \<in> received_seq_nums
       \<lparr>high_rtt_mode = False, received_seq_nums = {0}, received_packets = [],
             expected_seq = 1, total_packets = 2, transfer_complete = False,
             last_activity_time = 1, written = [(0, ''a'')]\<rparr>"
    by simp
  have h6: "tx_stream \<lparr>chunks = replicate 20 ''x'', start_time = 0, initial_rtt = 0\<rparr> [] tx_init
            = Next tx_init []"
    by simp
  have h8: "unpack_I (map char_of [0,0,0,0::int]) = Inr 0"
    by (simp add: unpack_I_def be_int_def)
  have h9: "0 < next_seq_num
       \<lparr>window = map (\<lambda>k. (k, map char_of [0,0,0,k,0,0,0,20] @ ''x'', 1, 0)) [1,2,3,4,5,6,7],
           next_seq_num = 8, base_seq_num = 1\<rparr>"
    by simp
  have h10: "tx_stream \<lparr>chunks = replicate 20 ''x'', start_time = 0, initial_rtt = 0\<rparr> []
       \<lparr>window = map (\<lambda>k. (k, map char_of [0,0,0,k,0,0,0,20] @ ''x'', 1, 0)) [1,2,3,4,5,6,7],
           next_seq_num = 8, base_seq_num = 1\<rparr>
     = Next \<lparr>window = map (\<lambda>k. (k, map char_of [0,0,0,k,0,0,0,20] @ ''x'', 1, 0)) [1,2,3,4,5,6,7],
           next_seq_num = 8, base_seq_num = 1\<rparr> []"
    by simp
  from duplicates_idempotent [OF rx_dup_example h2 h3 h4 h5 h6 tx_iteration_first h8 h9 h10
      tx_iteration_second, of 50 3]
  show ?thesis by blast
qed

text \<open>
  The claim as stated has no condition on the packet nor on the acknowledgement. For a
  header that announced 0 bytes the packet \<open>{seq = 0, total = 5, 'a'}\<close> is written and
  acknowledged; its duplicate \<open>{seq = 0, total = 0, 'a'}\<close> fails the check of lines
  109--116, which comes before the test for duplicates, and gets no acknowledgement. At
  the sender, with 40 chunks, an acknowledgement of 8 that arrives in the first iteration,
  when the window holds 0 to 7, is ignored; the same acknowledgement in the second
  iteration, whose burst has sent 8 to 15, takes 8 out of the window.
\<close>

theorem duplicates_not_idempotent:
  "rx_run 0 [Datagram (map char_of [0,0,0,0,0,0,0,5::int] @ ''a'') 1] (rx_init False 0)
   = Some (\<lparr>high_rtt_mode = False, received_seq_nums = {0}, received_packets = [],
             expected_seq = 1, total_packets = 5, transfer_complete = False,
             last_activity_time = 1, written = [(0, ''a'')]\<rparr>,
           [SendTo (map char_of [0,0,0,0::int])])
   \<and> decode_data (map char_of [0,0,0,0,0,0,0,0::int] @ ''a'') = Inr (Decoded 0 0 ''a'')
   \<and> rx_datagram 0 (map char_of [0,0,0,0,0,0,0,0::int] @ ''a'')
        \<lparr>high_rtt_mode = False, received_seq_nums = {0}, received_packets = [],
             expected_seq = 1, total_packets = 5, transfer_complete = False,
             last_activity_time = 1, written = [(0, ''a'')]\<rparr>
      = (\<lparr>high_rtt_mode = False, received_seq_nums = {0}, received_packets = [],
             expected_seq = 1, total_packets = 5, transfer_complete = False,
             last_activity_time = 1, written = [(0, ''a'')]\<rparr>, [])
   \<and> tx_iteration \<lparr>chunks = replicate 40 ''x'', start_time = 0, initial_rtt = 0\<rparr> 1 1
        (Recv (map char_of [0,0,0,8::int]) 1) tx_init
      = Next \<lparr>window = map (\<lambda>k. (k, map char_of [0,0,0,k,0,0,0,40] @ ''x'', 1, 0))
                          [0,1,2,3,4,5,6,7],
              next_seq_num = 8, base_seq_num = 0\<rparr>
          (map (\<lambda>k. SendTo (map char_of [0,0,0,k,0,0,0,40::int] @ ''x'')) [0,1,2,3,4,5,6,7])
   \<and> map fst (window (fst (projr
        (send_burst \<lparr>chunks = replicate 40 ''x'', start_time = 0, initial_rtt = 0\<rparr> 2 8 0
           \<lparr>window = map (\<lambda>k. (k, map char_of [0,0,0,k,0,0,0,40] @ ''x'', 1, 0))
                       [0,1,2,3,4,5,6,7],
              next_seq_num = 8, base_seq_num = 0\<rparr>))))
      = [0,1,2,3,4,5,6,7,8,9,10,11,12,13,14,15]
   \<and> tx_iteration \<lparr>chunks = replicate 40 ''x'', start_time = 0, initial_rtt = 0\<rparr> 2 2
        (Recv (map char_of [0,0,0,8::int]) 2)
        \<lparr>window = map (\<lambda>k. (k, map char_of [0,0,0,k,0,0,0,40] @ ''x'', 1, 0))
                    [0,1,2,3,4,5,6,7],
           next_seq_num = 8, base_seq_num = 0\<rparr>
      = Next \<lparr>window = map (\<lambda>k. (k, map char_of [0,0,0,k,0,0,0,40] @ ''x'', 1, 0))
                          [0,1,2,3,4,5,6,7]
                        @ map (\<lambda>k. (k, map char_of [0,0,0,k,0,0,0,40] @ ''x'', 2, 0))
                            [9,10,11,12,13,14,15],
              next_seq_num = 16, base_seq_num = 0\<rparr>
          (map (\<lambda>k. SendTo (map char_of [0,0,0,k,0,0,0,40::int] @ ''x''))
             [8,9,10,11,12,13,14,15])"
  unfolding rx_first_of_five tx_early_ack tx_early_ack_again tx_early_burst
  by (simp add: rx_eval)

subsection \<open>The retransmission timeout when time runs out\<close>

text \<open>
  Claim C4 says that with less than 25 percent of the time remaining (and outside the
  final push) the timeout is \<open>200 ms \<sqdot> 0.15\<close>. In the code the test \<open>remaining < 50\<close> comes
  first and the branch for \<open>remaining < 25\<close> is an \<open>elif\<close> of it, so it is never taken:
  in standard mode, for a packet not yet sent again, with 20 percent of the time remaining
  and nothing acknowledged, the timeout is \<open>max (200 ms \<sqdot> 0.2) (160 ms \<sqdot> 0.4) = 64 ms\<close>, not
  30 ms.
\<close>

theorem timeout_below_25_percent: "dynamic_timeout False False TIMEOUT 0 20 0 = 0.064
  \<and> dynamic_timeout False False TIMEOUT 0 20 0 \<noteq> TIMEOUT * 0.15"
  by (simp add: dynamic_timeout_def TIMEOUT_def Let_def)

subsection \<open>Datagrams other than the acknowledgement of the header\<close>

text \<open>
  Claim C10 says that every datagram received during the header handshake that is not
  \<open>HEADER_ACK\<close> counts as a retry. That holds for the datagrams that \<open>ack.decode()\<close>
  accepts (\<open>header_sync_strays\<close>: twenty-five of them, or timeouts, make \<open>send_file\<close>
  return \<open>False\<close>). A datagram that is not valid UTF-8 is not counted: \<open>ack.decode()\<close>
  raises \<open>UnicodeDecodeError\<close>, which the loop does not catch. The four bytes
  \<open>00 00 00 C8\<close>, an acknowledgement of sequence number 200 as the receiver sends them,
  are such a datagram.
\<close>

theorem header_undecodable_datagram:
  "header_sync [HsRecv (map char_of [0,0,0,200::nat])] 0 = HsRaised UnicodeDecodeError"
  by (simp add: decode_utf8_def MAX_RETRIES_def continuation_def)

end
